theory Spec2Isabelle
  imports Main "HOL-Library.Multiset"
begin

section \<open>Python strings\<close>

text \<open>
  A Python \<open>str\<close> is a sequence of Unicode code points, so a character is modelled by
  its code point and a string by the list of its code points. String literals of the
  source are written with \<open>lit\<close>, which maps each (ASCII) character of the literal to
  its code point.
\<close>

type_synonym pychar = nat
type_synonym pystr = "pychar list"

definition lit :: "string \<Rightarrow> pystr" where
  "lit s = map of_char s"

text \<open>\<open>s.startswith(p)\<close> and \<open>s.endswith(p)\<close>.\<close>

definition startswith :: "pystr \<Rightarrow> pystr \<Rightarrow> bool" where
  "startswith s p = (take (length p) s = p)"

definition endswith :: "pystr \<Rightarrow> pystr \<Rightarrow> bool" where
  "endswith s p = (length p \<le> length s \<and> drop (length s - length p) s = p)"

section \<open>Dictionaries with insertion order\<close>

text \<open>
  A Python \<open>dict\<close> keeps its keys in insertion order. It is modelled by an association
  list with distinct keys: \<open>d[k] = v\<close> overwrites the value of an existing key in place
  and appends a new key at the end.
\<close>

type_synonym ('k, 'v) dict = "('k \<times> 'v) list"

fun dict_set :: "'k \<Rightarrow> 'v \<Rightarrow> ('k, 'v) dict \<Rightarrow> ('k, 'v) dict" where
  "dict_set k v [] = [(k, v)]"
| "dict_set k v ((k', v') # d) =
     (if k' = k then (k, v) # d else (k', v') # dict_set k v d)"

text \<open>\<open>d[k].append(x)\<close> for a dictionary of lists whose key \<open>k\<close> is present.\<close>

fun dict_append :: "'k \<Rightarrow> 'a \<Rightarrow> ('k, 'a list) dict \<Rightarrow> ('k, 'a list) dict" where
  "dict_append k x [] = []"
| "dict_append k x ((k', xs) # d) =
     (if k' = k then (k', xs @ [x]) # d else (k', xs) # dict_append k x d)"

section \<open>Verb categories (verb_analyzer.py, get_verb_categories)\<close>

definition linking_verbs :: "pystr set" where
  "linking_verbs = set (map lit
     [''is'', ''am'', ''are'', ''was'', ''were'', ''be'', ''being'', ''been'',
      ''seem'', ''appear'', ''become'', ''grow'', ''turn'', ''look'',
      ''feel'', ''smell'', ''sound'', ''taste''])"

definition helping_verbs :: "pystr set" where
  "helping_verbs = set (map lit
     [''have'', ''has'', ''had'', ''do'', ''does'', ''did'', ''will'',
      ''would'', ''shall'', ''should'', ''may'', ''might'', ''must'',
      ''can'', ''could''])"

definition initial_categories :: "(pystr, pystr list) dict" where
  "initial_categories =
     [(lit ''action_verbs'', []),
      (lit ''linking_verbs'', []),
      (lit ''helping_verbs'', []),
      (lit ''irregular_verbs'', []),
      (lit ''regular_verbs'', [])]"

text \<open>
  The body of the loop \<open>for verb in verbs\<close>. The parameter \<open>lower\<close> is Python's
  \<open>str.lower\<close>, whose Unicode case tables are not part of the repository.
\<close>

definition categorize_step ::
  "(pystr \<Rightarrow> pystr) \<Rightarrow> (pystr, pystr list) dict \<Rightarrow> pystr \<Rightarrow> (pystr, pystr list) dict" where
  "categorize_step lower categories verb =
     (let verb_lower = lower verb in
      if verb_lower \<in> linking_verbs then dict_append (lit ''linking_verbs'') verb categories
      else if verb_lower \<in> helping_verbs then dict_append (lit ''helping_verbs'') verb categories
      else if endswith verb (lit ''ing'') then dict_append (lit ''action_verbs'') verb categories
      else if endswith verb (lit ''ed'') \<and> length verb > 2
        then dict_append (lit ''regular_verbs'') verb categories
      else dict_append (lit ''irregular_verbs'') verb categories)"

definition get_verb_categories ::
  "(pystr \<Rightarrow> pystr) \<Rightarrow> pystr list \<Rightarrow> (pystr, pystr list) dict" where
  "get_verb_categories lower verbs = foldl (categorize_step lower) initial_categories verbs"

text \<open>Lowercasing of ASCII text, the instance of \<open>str.lower\<close> used on concrete inputs.\<close>

definition ascii_lower :: "pystr \<Rightarrow> pystr" where
  "ascii_lower s = map (\<lambda>c. if 65 \<le> c \<and> c \<le> 90 then c + 32 else c) s"

text \<open>
  The category a single verb is filed under, read off the \<open>if\<close>/\<open>elif\<close> chain of the
  loop body; \<open>select\<close> are the verbs of one category, in input order. Both serve to
  state what \<open>get_verb_categories\<close> computes.
\<close>

datatype category = Action | Linking | Helping | Irregular | Regular

definition category_of :: "(pystr \<Rightarrow> pystr) \<Rightarrow> pystr \<Rightarrow> category" where
  "category_of lower verb =
     (if lower verb \<in> linking_verbs then Linking
      else if lower verb \<in> helping_verbs then Helping
      else if endswith verb (lit ''ing'') then Action
      else if endswith verb (lit ''ed'') \<and> length verb > 2 then Regular
      else Irregular)"

definition select :: "(pystr \<Rightarrow> pystr) \<Rightarrow> category \<Rightarrow> pystr list \<Rightarrow> pystr list" where
  "select lower c verbs = filter (\<lambda>v. category_of lower v = c) verbs"

section \<open>Text cleanup (text_extractor.py, clean_text)\<close>

text \<open>
  Python's whitespace characters: the code points on which \<open>str.isspace\<close> holds. The
  same class is used by \<open>str.split()\<close>, by \<open>str.strip()\<close> and by the regular
  expression \<open>\s\<close> on \<open>str\<close> patterns.
\<close>

definition is_space :: "pychar \<Rightarrow> bool" where
  "is_space c =
     ((9 \<le> c \<and> c \<le> 13) \<or> (28 \<le> c \<and> c \<le> 32) \<or> c = 133 \<or> c = 160 \<or> c = 5760
      \<or> (8192 \<le> c \<and> c \<le> 8202) \<or> c = 8232 \<or> c = 8233 \<or> c = 8239 \<or> c = 8287
      \<or> c = 12288)"

text \<open>
  \<open>s.split()\<close> without arguments: the maximal runs of non-whitespace characters, in
  order; there are no empty strings in the result.
\<close>

function py_split :: "pystr \<Rightarrow> pystr list" where
  "py_split [] = []"
| "py_split (c # cs) =
     (if is_space c then py_split cs
      else (c # takeWhile (\<lambda>x. \<not> is_space x) cs)
             # py_split (dropWhile (\<lambda>x. \<not> is_space x) cs))"
  by pat_completeness auto
termination
  by (relation "measure length") (auto simp: length_dropWhile_le less_Suc_eq_le)

text \<open>\<open>sep.join(ws)\<close>.\<close>

fun py_join :: "pystr \<Rightarrow> pystr list \<Rightarrow> pystr" where
  "py_join sep [] = []"
| "py_join sep [w] = w"
| "py_join sep (w # ws) = w @ sep @ py_join sep ws"

text \<open>\<open>s.strip()\<close>: leading and trailing whitespace removed.\<close>

definition py_strip :: "pystr \<Rightarrow> pystr" where
  "py_strip s = rev (dropWhile is_space (rev (dropWhile is_space s)))"

text \<open>
  The character class \<open>[\w\s.,!?\-:;\'"()]\<close> of the first substitution. The parameter
  \<open>is_word\<close> is the class \<open>\w\<close>, whose Unicode tables are not part of the repository;
  39 is the apostrophe and 34 the double quote.
\<close>

definition punctuation :: "pychar set" where
  "punctuation = set (lit ''.,!?-:;'' @ [39, 34] @ lit ''()'')"

definition allowed :: "(pychar \<Rightarrow> bool) \<Rightarrow> pychar \<Rightarrow> bool" where
  "allowed is_word c = (is_word c \<or> is_space c \<or> c \<in> punctuation)"

text \<open>
  \<open>re.sub(r'[^\w\s.,!?\-:;\'"()]', '', text)\<close> deletes every character outside the
  class.
\<close>

definition remove_special :: "(pychar \<Rightarrow> bool) \<Rightarrow> pystr \<Rightarrow> pystr" where
  "remove_special is_word text = filter (allowed is_word) text"

text \<open>
  \<open>re.sub(r'\s+', ' ', text)\<close> replaces every maximal run of whitespace by one space
  (code point 32).
\<close>

function collapse_ws :: "pystr \<Rightarrow> pystr" where
  "collapse_ws [] = []"
| "collapse_ws (c # cs) =
     (if is_space c then 32 # collapse_ws (dropWhile is_space cs) else c # collapse_ws cs)"
  by pat_completeness auto
termination
  by (relation "measure length") (auto simp: length_dropWhile_le less_Suc_eq_le)

definition clean_text :: "(pychar \<Rightarrow> bool) \<Rightarrow> pystr \<Rightarrow> pystr" where
  "clean_text is_word text =
     (let text1 = py_join (lit '' '') (py_split text);
          text2 = remove_special is_word text1;
          text3 = collapse_ws text2
      in py_strip text3)"

text \<open>The class \<open>\w\<close> on ASCII text, used on concrete inputs.\<close>

definition ascii_word :: "pychar \<Rightarrow> bool" where
  "ascii_word c = ((48 \<le> c \<and> c \<le> 57) \<or> (65 \<le> c \<and> c \<le> 90) \<or> (97 \<le> c \<and> c \<le> 122) \<or> c = 95)"

text \<open>Removal of trailing whitespace only, the second half of \<open>py_strip\<close>.\<close>

definition rstrip :: "pystr \<Rightarrow> pystr" where
  "rstrip s = rev (dropWhile is_space (rev s))"

section \<open>Exceptions and logging\<close>

text \<open>
  An exception is a value. \<open>ValueError\<close> is raised by the repository's own code;
  \<open>OtherException\<close> stands for any other exception derived from \<open>Exception\<close> (raised
  by a library call), and \<open>NonException\<close> for one that is not (\<open>KeyboardInterrupt\<close>,
  \<open>SystemExit\<close>), which \<open>except Exception\<close> does not catch. Each carries its message,
  \<open>str(e)\<close>. A call that may raise returns \<open>exn + 'a\<close>, with \<open>Inl\<close> for the exception.
\<close>

datatype exn = ValueError pystr | OtherException pystr | NonException pystr

fun exn_str :: "exn \<Rightarrow> pystr" where
  "exn_str (ValueError m) = m"
| "exn_str (OtherException m) = m"
| "exn_str (NonException m) = m"

fun is_Exception :: "exn \<Rightarrow> bool" where
  "is_Exception (ValueError m) = True"
| "is_Exception (OtherException m) = True"
| "is_Exception (NonException m) = False"

text \<open>The messages passed to \<open>logger.error\<close>, oldest first.\<close>

type_synonym log = "pystr list"

text \<open>
  The handler shared by the operations that have one:
  \<^verbatim>\<open>try: ... except Exception as e: logger.error(f"<prefix>{e}"); raise\<close>.
  It is applied to the outcome of the body and the log the body leaves behind.
\<close>

definition log_and_reraise :: "pystr \<Rightarrow> (exn + 'a) \<times> log \<Rightarrow> (exn + 'a) \<times> log" where
  "log_and_reraise prefix outcome =
     (case outcome of
        (Inl e, lg) \<Rightarrow> if is_Exception e then (Inl e, lg @ [prefix @ exn_str e]) else (Inl e, lg)
      | (Inr r, lg) \<Rightarrow> (Inr r, lg))"

section \<open>Verb extraction (verb_analyzer.py, extract_verbs)\<close>

text \<open>
  The three NLTK calls are parameters: \<open>sent_tokenize\<close>, \<open>word_tokenize\<close> and
  \<open>pos_tag\<close> with \<open>tagset='universal'\<close>, each of which may raise.
\<close>

record nltk =
  sent_tokenize :: "pystr \<Rightarrow> exn + pystr list"
  word_tokenize :: "pystr \<Rightarrow> exn + pystr list"
  pos_tag :: "pystr list \<Rightarrow> exn + (pystr \<times> pystr) list"

text \<open>
  \<open>collections.Counter\<close>: a dictionary from element to count, in order of first
  occurrence.
\<close>

fun counter_add :: "'a \<Rightarrow> ('a, nat) dict \<Rightarrow> ('a, nat) dict" where
  "counter_add x [] = [(x, 1)]"
| "counter_add x ((k, n) # d) = (if k = x then (k, n + 1) # d else (k, n) # counter_add x d)"

definition Counter :: "'a list \<Rightarrow> ('a, nat) dict" where
  "Counter xs = foldl (\<lambda>d x. counter_add x d) [] xs"

text \<open>
  \<open>most_common(n)\<close>: the \<open>n\<close> entries of highest count, by a stable sort on the count in
  descending order.
\<close>

definition most_common :: "nat \<Rightarrow> ('a, nat) dict \<Rightarrow> ('a \<times> nat) list" where
  "most_common n d = take n (sort_key (\<lambda>p. - int (snd p)) d)"

text \<open>
  \<open>[word.lower() for word, tag in tagged if tag.startswith('V')]\<close>, in two steps: the
  verb-tagged pairs, then their lowercased words.
\<close>

definition verb_tagged :: "(pystr \<times> pystr) list \<Rightarrow> (pystr \<times> pystr) list" where
  "verb_tagged tagged = filter (\<lambda>(word, tag). startswith tag (lit ''V'')) tagged"

definition verbs_of :: "(pystr \<Rightarrow> pystr) \<Rightarrow> (pystr \<times> pystr) list \<Rightarrow> pystr list" where
  "verbs_of lower tagged = map (\<lambda>(word, tag). lower word) (verb_tagged tagged)"

text \<open>An entry of \<open>sentence_analysis\<close>; \<open>sentence_verbs\<close> is its key \<open>"verbs"\<close>.\<close>

record sentence_info =
  sentence_number :: nat
  sentence :: pystr
  sentence_verbs :: "pystr list"
  verb_count :: nat

text \<open>The returned dictionary; \<open>input_text\<close> is its key \<open>"text"\<close>.\<close>

record analysis =
  input_text :: pystr
  sentences :: "pystr list"
  total_words :: nat
  total_sentences :: nat
  verbs :: "pystr list"
  verb_counts :: "(pystr, nat) dict"
  total_unique_verbs :: nat
  total_verb_instances :: nat
  sentence_analysis :: "sentence_info list"
  sentences_with_verbs :: nat
  sentences_without_verbs :: nat
  most_common_verbs :: "(pystr \<times> nat) list"

text \<open>The loop \<open>for i, sentence in enumerate(sentences, 1)\<close>, from index \<open>i\<close> on.\<close>

fun analyze_sentences ::
  "(pystr \<Rightarrow> pystr) \<Rightarrow> nltk \<Rightarrow> nat \<Rightarrow> pystr list \<Rightarrow> exn + sentence_info list" where
  "analyze_sentences lower nl i [] = Inr []"
| "analyze_sentences lower nl i (s # ss) =
     (case word_tokenize nl s of
        Inl e \<Rightarrow> Inl e
      | Inr sent_words \<Rightarrow>
     (case pos_tag nl sent_words of
        Inl e \<Rightarrow> Inl e
      | Inr sent_tagged \<Rightarrow>
     (let sent_verbs = verbs_of lower sent_tagged;
          entry = \<lparr>sentence_number = i, sentence = s, sentence_verbs = sent_verbs,
                   verb_count = length sent_verbs\<rparr>
      in case analyze_sentences lower nl (i + 1) ss of
           Inl e \<Rightarrow> Inl e
         | Inr rest \<Rightarrow> Inr (entry # rest))))"

text \<open>The body of the \<open>try\<close> block.\<close>

definition extract_verbs_body :: "(pystr \<Rightarrow> pystr) \<Rightarrow> nltk \<Rightarrow> pystr \<Rightarrow> exn + analysis" where
  "extract_verbs_body lower nl text =
     (case sent_tokenize nl text of
        Inl e \<Rightarrow> Inl e
      | Inr sents \<Rightarrow>
     (case word_tokenize nl text of
        Inl e \<Rightarrow> Inl e
      | Inr words \<Rightarrow>
     (case pos_tag nl words of
        Inl e \<Rightarrow> Inl e
      | Inr tagged_words \<Rightarrow>
     (let vs = verbs_of lower tagged_words;
          counts = Counter vs
      in case analyze_sentences lower nl 1 sents of
           Inl e \<Rightarrow> Inl e
         | Inr sa \<Rightarrow>
          (let unique_verbs = map fst counts;
               instances = sum_list (map snd counts)
           in Inr \<lparr>input_text = text,
                   sentences = sents,
                   total_words = length words,
                   total_sentences = length sents,
                   verbs = unique_verbs,
                   verb_counts = counts,
                   total_unique_verbs = length unique_verbs,
                   total_verb_instances = instances,
                   sentence_analysis = sa,
                   sentences_with_verbs = length (filter (\<lambda>s. verb_count s > 0) sa),
                   sentences_without_verbs = length (filter (\<lambda>s. verb_count s = 0) sa),
                   most_common_verbs = most_common 10 counts\<rparr>)))))"

definition extract_verbs ::
  "(pystr \<Rightarrow> pystr) \<Rightarrow> nltk \<Rightarrow> pystr \<Rightarrow> log \<Rightarrow> (exn + analysis) \<times> log" where
  "extract_verbs lower nl text lg =
     log_and_reraise (lit ''Error analyzing verbs: '') (extract_verbs_body lower nl text, lg)"

subsection \<open>Two stand-ins for the NLTK calls\<close>

text \<open>
  Both split a text into sentences at line breaks and a sentence into tokens at
  whitespace, and never raise. \<open>lexicon_nltk\<close> tags a token by the token alone: a member
  of the two fixed verb sets, or a word ending in \<open>ing\<close> or \<open>ed\<close>, is a \<open>VERB\<close>, any
  other token a \<open>NOUN\<close>. \<open>contextual_nltk\<close> tags by context: a token that is alone in
  the sequence it is given is a \<open>VERB\<close> (a one-word command), a token with neighbours a
  \<open>NOUN\<close>.
\<close>

function split_lines :: "pystr \<Rightarrow> pystr list" where
  "split_lines [] = []"
| "split_lines (c # cs) =
     (if c = 10 then split_lines cs
      else (c # takeWhile (\<lambda>x. x \<noteq> 10) cs) # split_lines (dropWhile (\<lambda>x. x \<noteq> 10) cs))"
  by pat_completeness auto
termination
  by (relation "measure length") (auto simp: length_dropWhile_le less_Suc_eq_le)

definition lexicon_tag :: "pystr \<Rightarrow> pystr" where
  "lexicon_tag w =
     (if ascii_lower w \<in> linking_verbs \<union> helping_verbs
         \<or> endswith w (lit ''ing'') \<or> endswith w (lit ''ed'')
      then lit ''VERB'' else lit ''NOUN'')"

definition lexicon_nltk :: nltk where
  "lexicon_nltk =
     \<lparr>sent_tokenize = (\<lambda>t. Inr (split_lines t)),
      word_tokenize = (\<lambda>t. Inr (py_split t)),
      pos_tag = (\<lambda>ws. Inr (map (\<lambda>w. (w, lexicon_tag w)) ws))\<rparr>"

fun contextual_tags :: "pystr list \<Rightarrow> (pystr \<times> pystr) list" where
  "contextual_tags [w] = [(w, lit ''VERB'')]"
| "contextual_tags ws = map (\<lambda>x. (x, lit ''NOUN'')) ws"

definition contextual_nltk :: nltk where
  "contextual_nltk =
     \<lparr>sent_tokenize = (\<lambda>t. Inr (split_lines t)),
      word_tokenize = (\<lambda>t. Inr (py_split t)),
      pos_tag = (\<lambda>ws. Inr (contextual_tags ws))\<rparr>"

section \<open>Text extraction (text_extractor.py, preprocess_image and extract_text)\<close>

text \<open>
  The calls into OpenCV, PIL and pytesseract are parameters; \<open>'a\<close> is the type of image
  arrays and \<open>'p\<close> the type of PIL images. \<open>imread\<close> returns \<open>None\<close> for a file it cannot
  read. \<open>threshold\<close> stands for the second component of the pair that \<open>cv2.threshold\<close>
  returns; a sum of flags is the list of its summands.
\<close>

datatype cv_flag = COLOR_BGR2GRAY | THRESH_BINARY | THRESH_OTSU | ADAPTIVE_THRESH_GAUSSIAN_C

record ('a, 'p) imaging =
  imread :: "pystr \<Rightarrow> exn + 'a option"
  cvtColor :: "'a \<Rightarrow> cv_flag \<Rightarrow> exn + 'a"
  threshold :: "'a \<Rightarrow> nat \<Rightarrow> nat \<Rightarrow> cv_flag list \<Rightarrow> exn + 'a"
  adaptiveThreshold :: "'a \<Rightarrow> nat \<Rightarrow> cv_flag \<Rightarrow> cv_flag \<Rightarrow> nat \<Rightarrow> nat \<Rightarrow> exn + 'a"
  GaussianBlur :: "'a \<Rightarrow> nat \<times> nat \<Rightarrow> nat \<Rightarrow> exn + 'a"
  fromarray :: "'a \<Rightarrow> exn + 'p"
  image_open :: "pystr \<Rightarrow> exn + 'p"
  image_to_string :: "'p \<Rightarrow> exn + pystr"

text \<open>The body of the \<open>try\<close> block of \<open>preprocess_image\<close>.\<close>

definition preprocess_image_body :: "('a, 'p) imaging \<Rightarrow> pystr \<Rightarrow> exn + (pystr, 'a) dict" where
  "preprocess_image_body lib image_path =
     (case imread lib image_path of
        Inl e \<Rightarrow> Inl e
      | Inr None \<Rightarrow> Inl (ValueError (lit ''Could not read image from '' @ image_path))
      | Inr (Some img) \<Rightarrow>
     (case cvtColor lib img COLOR_BGR2GRAY of
        Inl e \<Rightarrow> Inl e
      | Inr gray \<Rightarrow>
     (case threshold lib gray 150 255 [THRESH_BINARY] of
        Inl e \<Rightarrow> Inl e
      | Inr thresh1 \<Rightarrow>
     (let processed1 = dict_set (lit ''simple_threshold'') thresh1 [] in
      case adaptiveThreshold lib gray 255 ADAPTIVE_THRESH_GAUSSIAN_C THRESH_BINARY 11 2 of
        Inl e \<Rightarrow> Inl e
      | Inr thresh2 \<Rightarrow>
     (let processed2 = dict_set (lit ''adaptive_threshold'') thresh2 processed1 in
      case threshold lib gray 0 255 [THRESH_BINARY, THRESH_OTSU] of
        Inl e \<Rightarrow> Inl e
      | Inr thresh3 \<Rightarrow>
     (let processed3 = dict_set (lit ''otsu_threshold'') thresh3 processed2 in
      case GaussianBlur lib gray (5, 5) 0 of
        Inl e \<Rightarrow> Inl e
      | Inr blurred \<Rightarrow>
     (case threshold lib blurred 0 255 [THRESH_BINARY, THRESH_OTSU] of
        Inl e \<Rightarrow> Inl e
      | Inr thresh4 \<Rightarrow> Inr (dict_set (lit ''gaussian_otsu'') thresh4 processed3))))))))"

definition preprocess_image ::
  "('a, 'p) imaging \<Rightarrow> pystr \<Rightarrow> log \<Rightarrow> (exn + (pystr, 'a) dict) \<times> log" where
  "preprocess_image lib image_path lg =
     log_and_reraise (lit ''Error preprocessing image: '') (preprocess_image_body lib image_path, lg)"

text \<open>
  An entry of \<open>extraction_results\<close>, with its keys \<open>"text"\<close> and \<open>"length"\<close>, and the second
  component of the pair that \<open>extract_text\<close> returns.
\<close>

record method_result =
  result_text :: pystr
  result_length :: nat

record details =
  best_method :: pystr
  all_methods :: "(pystr, method_result) dict"
  preprocessed :: bool

text \<open>\<open>d[k]\<close>, which raises \<open>KeyError\<close> for a missing key.\<close>

definition dict_get :: "pystr \<Rightarrow> (pystr, 'v) dict \<Rightarrow> exn + 'v" where
  "dict_get k d =
     (case map_of d k of None \<Rightarrow> Inl (OtherException ([39] @ k @ [39])) | Some v \<Rightarrow> Inr v)"

text \<open>
  \<open>max(xs, key=f)\<close>: the first element whose key is maximal; a later element replaces the
  candidate only when its key is strictly greater. It raises \<open>ValueError\<close> on an empty
  sequence, and whatever the key function raises.
\<close>

fun max_from :: "('a \<Rightarrow> exn + nat) \<Rightarrow> 'a \<Rightarrow> nat \<Rightarrow> 'a list \<Rightarrow> exn + 'a" where
  "max_from key best best_key [] = Inr best"
| "max_from key best best_key (x # xs) =
     (case key x of
        Inl e \<Rightarrow> Inl e
      | Inr k \<Rightarrow> if k > best_key then max_from key x k xs else max_from key best best_key xs)"

fun py_max :: "('a \<Rightarrow> exn + nat) \<Rightarrow> 'a list \<Rightarrow> exn + 'a" where
  "py_max key [] = Inl (ValueError (lit ''max() arg is an empty sequence''))"
| "py_max key (x # xs) = (case key x of Inl e \<Rightarrow> Inl e | Inr k \<Rightarrow> max_from key x k xs)"

text \<open>
  The loop \<open>for method_name, processed_img in processed_images.items()\<close>, with the
  dictionary \<open>extraction_results\<close> built so far.
\<close>

fun ocr_all ::
  "('a, 'p) imaging \<Rightarrow> (pystr \<times> 'a) list \<Rightarrow> (pystr, method_result) dict
    \<Rightarrow> exn + (pystr, method_result) dict" where
  "ocr_all lib [] extraction_results = Inr extraction_results"
| "ocr_all lib ((method_name, processed_img) # rest) extraction_results =
     (case fromarray lib processed_img of
        Inl e \<Rightarrow> Inl e
      | Inr pil_img \<Rightarrow>
     (case image_to_string lib pil_img of
        Inl e \<Rightarrow> Inl e
      | Inr text \<Rightarrow>
          ocr_all lib rest
            (dict_set method_name
               \<lparr>result_text = text, result_length = length (py_strip text)\<rparr>
               extraction_results)))"

text \<open>The key function \<open>lambda x: extraction_results[x]["length"]\<close>.\<close>

definition length_key :: "(pystr, method_result) dict \<Rightarrow> pystr \<Rightarrow> exn + nat" where
  "length_key extraction_results x =
     (case dict_get x extraction_results of Inl e \<Rightarrow> Inl e | Inr r \<Rightarrow> Inr (result_length r))"

text \<open>
  The body of the \<open>try\<close> block of \<open>extract_text\<close>. It calls \<open>preprocess_image\<close>, which
  may log, so the body takes the log and returns it.
\<close>

definition extract_text_body ::
  "('a, 'p) imaging \<Rightarrow> pystr \<Rightarrow> bool \<Rightarrow> log \<Rightarrow> (exn + pystr \<times> details) \<times> log" where
  "extract_text_body lib image_path preprocess lg =
     (if preprocess then
        (case preprocess_image lib image_path lg of
           (Inl e, lg1) \<Rightarrow> (Inl e, lg1)
         | (Inr processed_images, lg1) \<Rightarrow>
        (case ocr_all lib processed_images [] of
           Inl e \<Rightarrow> (Inl e, lg1)
         | Inr extraction_results \<Rightarrow>
        (case py_max (length_key extraction_results) (map fst extraction_results) of
           Inl e \<Rightarrow> (Inl e, lg1)
         | Inr best \<Rightarrow>
        (case dict_get best extraction_results of
           Inl e \<Rightarrow> (Inl e, lg1)
         | Inr best_result \<Rightarrow>
             (Inr (result_text best_result,
                   \<lparr>best_method = best, all_methods = extraction_results,
                    preprocessed = True\<rparr>), lg1)))))
      else
        (case image_open lib image_path of
           Inl e \<Rightarrow> (Inl e, lg)
         | Inr img \<Rightarrow>
        (case image_to_string lib img of
           Inl e \<Rightarrow> (Inl e, lg)
         | Inr text \<Rightarrow>
             (Inr (text,
                   \<lparr>best_method = lit ''simple'',
                    all_methods =
                      [(lit ''simple'',
                        \<lparr>result_text = text, result_length = length (py_strip text)\<rparr>)],
                    preprocessed = False\<rparr>), lg))))"

definition extract_text ::
  "('a, 'p) imaging \<Rightarrow> pystr \<Rightarrow> bool \<Rightarrow> log \<Rightarrow> (exn + pystr \<times> details) \<times> log" where
  "extract_text lib image_path preprocess lg =
     log_and_reraise (lit ''Error extracting text: '')
       (extract_text_body lib image_path preprocess lg)"

subsection \<open>A stand-in for the imaging calls\<close>

text \<open>
  Images are numbers. Every file is read as image 0, its grey version is 1; the four
  transforms give the images 2, 3, 4 and 6 (5 is the blurred image), whose recognised texts
  are \<open>ab\<close>, \<open>abc\<close> followed by a newline, \<open>xyz\<close> and \<open>a\<close>. With
  \<open>unreadable_imaging\<close> no file can be read.
\<close>

definition toy_imaging :: "(nat, nat) imaging" where
  "toy_imaging =
     \<lparr>imread = (\<lambda>p. Inr (Some 0)),
      cvtColor = (\<lambda>img code. Inr 1),
      threshold = (\<lambda>img t m flags.
         Inr (if img = 5 then 6 else if flags = [THRESH_BINARY] then 2 else 4)),
      adaptiveThreshold = (\<lambda>img m method type block c. Inr 3),
      GaussianBlur = (\<lambda>img ksize sigma. Inr 5),
      fromarray = (\<lambda>img. Inr img),
      image_open = (\<lambda>p. Inr 0),
      image_to_string = (\<lambda>img.
         Inr (if img = 2 then lit ''ab'' else if img = 3 then lit ''abc'' @ [10]
              else if img = 4 then lit ''xyz'' else lit ''a''))\<rparr>"

definition unreadable_imaging :: "(nat, nat) imaging" where
  "unreadable_imaging = toy_imaging\<lparr>imread := (\<lambda>p. Inr None)\<rparr>"

section \<open>Saving results (utils.py, save_results)\<close>









subsection \<open>Stand-ins that fail\<close>





section \<open>Properties of get_verb_categories\<close>

lemma category_keys_distinct:
  "lit ''action_verbs'' \<noteq> lit ''linking_verbs''"
  "lit ''action_verbs'' \<noteq> lit ''helping_verbs''"
  "lit ''action_verbs'' \<noteq> lit ''irregular_verbs''"
  "lit ''action_verbs'' \<noteq> lit ''regular_verbs''"
  "lit ''linking_verbs'' \<noteq> lit ''helping_verbs''"
  "lit ''linking_verbs'' \<noteq> lit ''irregular_verbs''"
  "lit ''linking_verbs'' \<noteq> lit ''regular_verbs''"
  "lit ''helping_verbs'' \<noteq> lit ''irregular_verbs''"
  "lit ''helping_verbs'' \<noteq> lit ''regular_verbs''"
  "lit ''irregular_verbs'' \<noteq> lit ''regular_verbs''"
  by (simp_all add: lit_def)

lemma categorize_step_dict:
  "categorize_step lower
     [(lit ''action_verbs'', a), (lit ''linking_verbs'', l), (lit ''helping_verbs'', h),
      (lit ''irregular_verbs'', i), (lit ''regular_verbs'', r)] v =
     [(lit ''action_verbs'', a @ select lower Action [v]),
      (lit ''linking_verbs'', l @ select lower Linking [v]),
      (lit ''helping_verbs'', h @ select lower Helping [v]),
      (lit ''irregular_verbs'', i @ select lower Irregular [v]),
      (lit ''regular_verbs'', r @ select lower Regular [v])]"
  using category_keys_distinct category_keys_distinct [symmetric]
  by (simp add: categorize_step_def select_def category_of_def Let_def)

lemma select_Cons: "select lower c (v # vs) = select lower c [v] @ select lower c vs"
  by (simp add: select_def)

lemma foldl_categorize_step:
  "foldl (categorize_step lower)
     [(lit ''action_verbs'', a), (lit ''linking_verbs'', l), (lit ''helping_verbs'', h),
      (lit ''irregular_verbs'', i), (lit ''regular_verbs'', r)] vs =
     [(lit ''action_verbs'', a @ select lower Action vs),
      (lit ''linking_verbs'', l @ select lower Linking vs),
      (lit ''helping_verbs'', h @ select lower Helping vs),
      (lit ''irregular_verbs'', i @ select lower Irregular vs),
      (lit ''regular_verbs'', r @ select lower Regular vs)]"
proof (induction vs arbitrary: a l h i r)
  case Nil
  show ?case by (simp add: select_def)
next
  case (Cons v vs)
  show ?case
    by (simp only: foldl_Cons categorize_step_dict Cons.IH append_assoc select_Cons [of _ _ v vs])
qed

lemma get_verb_categories_select:
  "get_verb_categories lower vs =
     [(lit ''action_verbs'', select lower Action vs),
      (lit ''linking_verbs'', select lower Linking vs),
      (lit ''helping_verbs'', select lower Helping vs),
      (lit ''irregular_verbs'', select lower Irregular vs),
      (lit ''regular_verbs'', select lower Regular vs)]"
  unfolding get_verb_categories_def initial_categories_def
  by (simp only: foldl_categorize_step append_Nil)

lemma mset_select:
  "mset (select lower Action vs) + mset (select lower Linking vs) + mset (select lower Helping vs)
     + mset (select lower Irregular vs) + mset (select lower Regular vs) = mset vs"
proof (induction vs)
  case Nil
  show ?case by (simp add: select_def)
next
  case (Cons v vs)
  then show ?case by (cases "category_of lower v") (simp_all add: select_def)
qed

lemma set_select: "v \<in> set (select lower c vs) \<longleftrightarrow> v \<in> set vs \<and> category_of lower v = c"
  by (auto simp: select_def)

lemma select_exactly_one:
  "length (filter (\<lambda>xs. v \<in> set xs)
     [select lower Action vs, select lower Linking vs, select lower Helping vs,
      select lower Irregular vs, select lower Regular vs]) = (if v \<in> set vs then 1 else 0)"
  by (cases "category_of lower v") (simp_all add: set_select)

lemma endswith_last: "endswith s p \<Longrightarrow> p \<noteq> [] \<Longrightarrow> last s = last p"
proof -
  assume e: "endswith s p" and ne: "p \<noteq> []"
  let ?n = "length s - length p"
  from e have d: "drop ?n s = p" by (simp add: endswith_def)
  have "take ?n s @ drop ?n s = s" by (rule append_take_drop_id)
  with d have "take ?n s @ p = s" by (simp only:)
  moreover have "last (take ?n s @ p) = last p" using ne by (rule last_appendR)
  ultimately show ?thesis by (simp only:)
qed

lemma endswith_same_length: "endswith s p \<Longrightarrow> endswith s q \<Longrightarrow> length p = length q \<Longrightarrow> p = q"
proof -
  assume p: "endswith s p" and q: "endswith s q" and l: "length p = length q"
  from p have "p = drop (length s - length p) s" by (simp add: endswith_def)
  also have "\<dots> = drop (length s - length q) s" by (simp only: l)
  also from q have "\<dots> = q" by (simp add: endswith_def)
  finally show ?thesis .
qed

lemma fixed_sets_disjoint: "linking_verbs \<inter> helping_verbs = {}"
  by (simp add: linking_verbs_def helping_verbs_def lit_def)

text \<open>
  Claim C3. For every list of verbs, \<open>get_verb_categories\<close> returns the five category
  lists under their five keys; every string occurs in exactly one of the five lists if it
  is an input verb and in none otherwise; the five lists together hold exactly the
  occurrences of the input (as multisets), so their lengths add up to the length of the
  input; and a verb matching neither fixed set nor a suffix rule is in
  \<open>irregular_verbs\<close>.
\<close>

theorem get_verb_categories_partition:
  "\<exists>a l h i r.
     get_verb_categories lower vs =
       [(lit ''action_verbs'', a), (lit ''linking_verbs'', l), (lit ''helping_verbs'', h),
        (lit ''irregular_verbs'', i), (lit ''regular_verbs'', r)]
     \<and> (\<forall>v. length (filter (\<lambda>xs. v \<in> set xs) [a, l, h, i, r]) = (if v \<in> set vs then 1 else 0))
     \<and> mset a + mset l + mset h + mset i + mset r = mset vs
     \<and> length (a @ l @ h @ i @ r) = length vs
     \<and> (\<forall>v \<in> set vs.
           lower v \<notin> linking_verbs \<and> lower v \<notin> helping_verbs
           \<and> \<not> endswith v (lit ''ing'') \<and> \<not> (endswith v (lit ''ed'') \<and> length v > 2)
           \<longrightarrow> v \<in> set i)"
proof -
  let ?a = "select lower Action vs" and ?l = "select lower Linking vs"
    and ?h = "select lower Helping vs" and ?i = "select lower Irregular vs"
    and ?r = "select lower Regular vs"
  have m: "mset ?a + mset ?l + mset ?h + mset ?i + mset ?r = mset vs"
    by (rule mset_select)
  have "size (mset ?a + mset ?l + mset ?h + mset ?i + mset ?r) = size (mset vs)"
    by (simp only: m)
  then have len: "length (?a @ ?l @ ?h @ ?i @ ?r) = length vs"
    by simp
  have one: "\<forall>v. length (filter (\<lambda>xs. v \<in> set xs) [?a, ?l, ?h, ?i, ?r]) = (if v \<in> set vs then 1 else 0)"
    using select_exactly_one by blast
  have irr: "\<forall>v \<in> set vs.
           lower v \<notin> linking_verbs \<and> lower v \<notin> helping_verbs
           \<and> \<not> endswith v (lit ''ing'') \<and> \<not> (endswith v (lit ''ed'') \<and> length v > 2)
           \<longrightarrow> v \<in> set ?i"
    by (simp add: set_select category_of_def)
  from get_verb_categories_select [of lower vs] one m len irr show ?thesis
    by blast
qed

theorem get_verb_categories_partition_witness:
  "lit ''dreams'' \<in> set [lit ''is'', lit ''dreams'', lit ''chasing'', lit ''dreams'']
   \<and> ascii_lower (lit ''dreams'') \<notin> linking_verbs \<and> ascii_lower (lit ''dreams'') \<notin> helping_verbs
   \<and> \<not> endswith (lit ''dreams'') (lit ''ing'')
   \<and> \<not> (endswith (lit ''dreams'') (lit ''ed'') \<and> length (lit ''dreams'') > 2)
   \<and> (\<exists>a l h i r.
     get_verb_categories ascii_lower [lit ''is'', lit ''dreams'', lit ''chasing'', lit ''dreams''] =
       [(lit ''action_verbs'', a), (lit ''linking_verbs'', l), (lit ''helping_verbs'', h),
        (lit ''irregular_verbs'', i), (lit ''regular_verbs'', r)]
     \<and> lit ''dreams'' \<in> set i \<and> length (a @ l @ h @ i @ r) = 4)"
proof -
  let ?vs = "[lit ''is'', lit ''dreams'', lit ''chasing'', lit ''dreams'']"
  have h1: "lit ''dreams'' \<in> set ?vs" by simp
  have h2: "ascii_lower (lit ''dreams'') \<notin> linking_verbs" by code_simp
  have h3: "ascii_lower (lit ''dreams'') \<notin> helping_verbs" by code_simp
  have h4: "\<not> endswith (lit ''dreams'') (lit ''ing'')" by code_simp
  have h5: "\<not> (endswith (lit ''dreams'') (lit ''ed'') \<and> length (lit ''dreams'') > 2)" by code_simp
  have h6: "length ?vs = 4" by simp
  from get_verb_categories_partition [of ascii_lower ?vs] obtain a l h i r where
    "get_verb_categories ascii_lower ?vs =
       [(lit ''action_verbs'', a), (lit ''linking_verbs'', l), (lit ''helping_verbs'', h),
        (lit ''irregular_verbs'', i), (lit ''regular_verbs'', r)]"
    "length (a @ l @ h @ i @ r) = length ?vs"
    "\<forall>v \<in> set ?vs.
           ascii_lower v \<notin> linking_verbs \<and> ascii_lower v \<notin> helping_verbs
           \<and> \<not> endswith v (lit ''ing'') \<and> \<not> (endswith v (lit ''ed'') \<and> length v > 2)
           \<longrightarrow> v \<in> set i"
    by blast
  with h1 h2 h3 h4 h5 h6 show ?thesis by metis
qed

lemma endswith_ing_last: "endswith v (lit ''ing'') \<Longrightarrow> last v = 103"
  using endswith_last [of v "lit ''ing''"] by (simp add: lit_def)

lemma endswith_ed_last: "endswith v (lit ''ed'') \<Longrightarrow> last v = 100"
  using endswith_last [of v "lit ''ed''"] by (simp add: lit_def)

lemma not_ing_and_ed: "endswith v (lit ''ing'') \<Longrightarrow> \<not> endswith v (lit ''ed'')"
proof
  assume i: "endswith v (lit ''ing'')" and e: "endswith v (lit ''ed'')"
  from i have "last v = 103" by (rule endswith_ing_last)
  moreover from e have "last v = 100" by (rule endswith_ed_last)
  ultimately show False by simp
qed

lemma ing_variant_last:
  assumes "length suf = 3" and "ascii_lower suf = lit ''ing''"
  shows "last suf = 103 \<or> last suf = 71"
proof -
  from assms(1) obtain x y z where s: "suf = [x, y, z]"
    by (auto simp: numeral_3_eq_3 length_Suc_conv)
  from assms(2) have "(if 65 \<le> z \<and> z \<le> 90 then z + 32 else z) = 103"
    by (simp add: s ascii_lower_def lit_def)
  then have "z = 103 \<or> z = 71"
    by (simp split: if_splits)
  then show ?thesis by (simp add: s)
qed

lemma ing_variant_irregular:
  assumes "lower v \<notin> linking_verbs" and "lower v \<notin> helping_verbs"
    and "endswith v suf" and "length suf = 3" and "ascii_lower suf = lit ''ing''"
    and "suf \<noteq> lit ''ing''"
  shows "category_of lower v = Irregular"
proof -
  have "\<not> endswith v (lit ''ing'')"
    using endswith_same_length [OF assms(3), of "lit ''ing''"] assms(4,6)
    by (auto simp: lit_def)
  moreover have "\<not> endswith v (lit ''ed'')"
  proof
    assume "endswith v (lit ''ed'')"
    then have "last v = 100" by (rule endswith_ed_last)
    moreover from assms(4) have "suf \<noteq> []" by auto
    with assms(3) have "last v = last suf" by (rule endswith_last)
    ultimately show False using ing_variant_last [OF assms(4,5)] by simp
  qed
  ultimately show ?thesis using assms(1,2) by (simp add: category_of_def)
qed

text \<open>
  The verb \<open>being\<close> ends in \<open>ing\<close> and is filed under \<open>linking_verbs\<close>, not under
  \<open>action_verbs\<close>: the two set lookups come first in the \<open>if\<close>/\<open>elif\<close> chain.
\<close>

theorem get_verb_categories_precedence_counterexample:
  "endswith (lit ''being'') (lit ''ing'')
   \<and> get_verb_categories ascii_lower [lit ''being''] =
       [(lit ''action_verbs'', []), (lit ''linking_verbs'', [lit ''being'']),
        (lit ''helping_verbs'', []), (lit ''irregular_verbs'', []), (lit ''regular_verbs'', [])]"
  by code_simp

text \<open>
  Claim C4, amended. For every verb of the input list: a verb whose lowercase form is in
  the fixed linking set is assigned to the linking category, one whose lowercase form is in
  the fixed helping set to the helping category; a verb whose lowercase form is in neither
  set is assigned to the action category if it has the suffix \<open>ing\<close>, and to the regular
  category if it has the suffix \<open>ed\<close> and length greater than 2.
\<close>

theorem get_verb_categories_rules:
  "\<exists>a l h i r.
     get_verb_categories lower vs =
       [(lit ''action_verbs'', a), (lit ''linking_verbs'', l), (lit ''helping_verbs'', h),
        (lit ''irregular_verbs'', i), (lit ''regular_verbs'', r)]
     \<and> (\<forall>v \<in> set vs.
          (lower v \<in> linking_verbs \<longrightarrow> v \<in> set l)
        \<and> (lower v \<in> helping_verbs \<longrightarrow> v \<in> set h)
        \<and> (lower v \<notin> linking_verbs \<and> lower v \<notin> helping_verbs \<and> endswith v (lit ''ing'')
             \<longrightarrow> v \<in> set a)
        \<and> (lower v \<notin> linking_verbs \<and> lower v \<notin> helping_verbs
             \<and> endswith v (lit ''ed'') \<and> length v > 2 \<longrightarrow> v \<in> set r))"
proof -
  have "\<forall>v \<in> set vs.
          (lower v \<in> linking_verbs \<longrightarrow> v \<in> set (select lower Linking vs))
        \<and> (lower v \<in> helping_verbs \<longrightarrow> v \<in> set (select lower Helping vs))
        \<and> (lower v \<notin> linking_verbs \<and> lower v \<notin> helping_verbs \<and> endswith v (lit ''ing'')
             \<longrightarrow> v \<in> set (select lower Action vs))
        \<and> (lower v \<notin> linking_verbs \<and> lower v \<notin> helping_verbs
             \<and> endswith v (lit ''ed'') \<and> length v > 2 \<longrightarrow> v \<in> set (select lower Regular vs))"
    using fixed_sets_disjoint not_ing_and_ed
    by (auto simp: set_select category_of_def)
  with get_verb_categories_select [of lower vs] show ?thesis
    by blast
qed

theorem get_verb_categories_rules_witness:
  "ascii_lower (lit ''Is'') \<in> linking_verbs \<and> ascii_lower (lit ''had'') \<in> helping_verbs
   \<and> ascii_lower (lit ''chasing'') \<notin> linking_verbs \<and> ascii_lower (lit ''chasing'') \<notin> helping_verbs
   \<and> endswith (lit ''chasing'') (lit ''ing'')
   \<and> ascii_lower (lit ''walked'') \<notin> linking_verbs \<and> ascii_lower (lit ''walked'') \<notin> helping_verbs
   \<and> endswith (lit ''walked'') (lit ''ed'') \<and> length (lit ''walked'') > 2
   \<and> (\<exists>a l h i r.
     get_verb_categories ascii_lower [lit ''Is'', lit ''had'', lit ''chasing'', lit ''walked''] =
       [(lit ''action_verbs'', a), (lit ''linking_verbs'', l), (lit ''helping_verbs'', h),
        (lit ''irregular_verbs'', i), (lit ''regular_verbs'', r)]
     \<and> lit ''Is'' \<in> set l \<and> lit ''had'' \<in> set h \<and> lit ''chasing'' \<in> set a
     \<and> lit ''walked'' \<in> set r)"
proof -
  let ?vs = "[lit ''Is'', lit ''had'', lit ''chasing'', lit ''walked'']"
  have m: "lit ''Is'' \<in> set ?vs" "lit ''had'' \<in> set ?vs" "lit ''chasing'' \<in> set ?vs"
    "lit ''walked'' \<in> set ?vs" by simp_all
  have h1: "ascii_lower (lit ''Is'') \<in> linking_verbs" by code_simp
  have h2: "ascii_lower (lit ''had'') \<in> helping_verbs" by code_simp
  have h3: "ascii_lower (lit ''chasing'') \<notin> linking_verbs" by code_simp
  have h4: "ascii_lower (lit ''chasing'') \<notin> helping_verbs" by code_simp
  have h5: "endswith (lit ''chasing'') (lit ''ing'')" by code_simp
  have h6: "ascii_lower (lit ''walked'') \<notin> linking_verbs" by code_simp
  have h7: "ascii_lower (lit ''walked'') \<notin> helping_verbs" by code_simp
  have h8: "endswith (lit ''walked'') (lit ''ed'')" by code_simp
  have h9: "length (lit ''walked'') > 2" by code_simp
  from get_verb_categories_rules [of ascii_lower ?vs] obtain a l h i r where
    d: "get_verb_categories ascii_lower ?vs =
       [(lit ''action_verbs'', a), (lit ''linking_verbs'', l), (lit ''helping_verbs'', h),
        (lit ''irregular_verbs'', i), (lit ''regular_verbs'', r)]"
    and r: "\<forall>v \<in> set ?vs.
          (ascii_lower v \<in> linking_verbs \<longrightarrow> v \<in> set l)
        \<and> (ascii_lower v \<in> helping_verbs \<longrightarrow> v \<in> set h)
        \<and> (ascii_lower v \<notin> linking_verbs \<and> ascii_lower v \<notin> helping_verbs \<and> endswith v (lit ''ing'')
             \<longrightarrow> v \<in> set a)
        \<and> (ascii_lower v \<notin> linking_verbs \<and> ascii_lower v \<notin> helping_verbs
             \<and> endswith v (lit ''ed'') \<and> length v > 2 \<longrightarrow> v \<in> set r)"
    by blast
  from r m(1) h1 have "lit ''Is'' \<in> set l" by blast
  moreover from r m(2) h2 have "lit ''had'' \<in> set h" by blast
  moreover from r m(3) h3 h4 h5 have "lit ''chasing'' \<in> set a" by blast
  moreover from r m(4) h6 h7 h8 h9 have "lit ''walked'' \<in> set r" by blast
  ultimately show ?thesis using d h1 h2 h3 h4 h5 h6 h7 h8 h9 by blast
qed

text \<open>
  Claim C10. Membership in the linking and the helping set is tested on the lowercased
  verb, the suffixes \<open>ing\<close> and \<open>ed\<close> on the verb as given. Hence a verb whose
  lowercase form is in neither set and which ends in a variant \<open>suf\<close> of \<open>ing\<close> with
  at least one uppercase letter (such as \<open>ING\<close>) is placed in \<open>irregular_verbs\<close> and
  not in \<open>action_verbs\<close>.
\<close>

theorem get_verb_categories_case_sensitivity:
  "\<exists>a l h i r.
     get_verb_categories lower vs =
       [(lit ''action_verbs'', a), (lit ''linking_verbs'', l), (lit ''helping_verbs'', h),
        (lit ''irregular_verbs'', i), (lit ''regular_verbs'', r)]
     \<and> (\<forall>v \<in> set vs.
          (v \<in> set l \<longleftrightarrow> lower v \<in> linking_verbs)
        \<and> (v \<in> set h \<longleftrightarrow> lower v \<in> helping_verbs)
        \<and> (lower v \<notin> linking_verbs \<and> lower v \<notin> helping_verbs \<longrightarrow>
             (v \<in> set a \<longleftrightarrow> endswith v (lit ''ing''))
           \<and> (v \<in> set r \<longleftrightarrow> \<not> endswith v (lit ''ing'') \<and> endswith v (lit ''ed'') \<and> length v > 2))
        \<and> (lower v \<notin> linking_verbs \<and> lower v \<notin> helping_verbs \<and> endswith v suf
            \<and> length suf = 3 \<and> ascii_lower suf = lit ''ing'' \<and> suf \<noteq> lit ''ing''
             \<longrightarrow> v \<in> set i \<and> v \<notin> set a))"
proof -
  have "\<forall>v \<in> set vs.
          (v \<in> set (select lower Linking vs) \<longleftrightarrow> lower v \<in> linking_verbs)
        \<and> (v \<in> set (select lower Helping vs) \<longleftrightarrow> lower v \<in> helping_verbs)
        \<and> (lower v \<notin> linking_verbs \<and> lower v \<notin> helping_verbs \<longrightarrow>
             (v \<in> set (select lower Action vs) \<longleftrightarrow> endswith v (lit ''ing''))
           \<and> (v \<in> set (select lower Regular vs)
                \<longleftrightarrow> \<not> endswith v (lit ''ing'') \<and> endswith v (lit ''ed'') \<and> length v > 2))"
    using fixed_sets_disjoint
    by (auto simp: set_select category_of_def)
  moreover have "\<forall>v \<in> set vs.
       lower v \<notin> linking_verbs \<and> lower v \<notin> helping_verbs \<and> endswith v suf
            \<and> length suf = 3 \<and> ascii_lower suf = lit ''ing'' \<and> suf \<noteq> lit ''ing''
             \<longrightarrow> v \<in> set (select lower Irregular vs) \<and> v \<notin> set (select lower Action vs)"
    using ing_variant_irregular [of lower _ suf]
    by (simp add: set_select)
  ultimately show ?thesis
    using get_verb_categories_select [of lower vs] by blast
qed

theorem get_verb_categories_case_sensitivity_witness:
  "ascii_lower (lit ''IS'') \<in> linking_verbs \<and> lit ''IS'' \<notin> linking_verbs
   \<and> ascii_lower (lit ''RUNNING'') \<notin> linking_verbs
   \<and> ascii_lower (lit ''RUNNING'') \<notin> helping_verbs
   \<and> endswith (lit ''RUNNING'') (lit ''ING'') \<and> length (lit ''ING'') = 3
   \<and> ascii_lower (lit ''ING'') = lit ''ing'' \<and> lit ''ING'' \<noteq> lit ''ing''
   \<and> (\<exists>a l h i r.
     get_verb_categories ascii_lower [lit ''RUNNING'', lit ''IS''] =
       [(lit ''action_verbs'', a), (lit ''linking_verbs'', l), (lit ''helping_verbs'', h),
        (lit ''irregular_verbs'', i), (lit ''regular_verbs'', r)]
     \<and> lit ''IS'' \<in> set l \<and> lit ''RUNNING'' \<in> set i \<and> lit ''RUNNING'' \<notin> set a)"
proof -
  let ?vs = "[lit ''RUNNING'', lit ''IS'']"
  have m: "lit ''RUNNING'' \<in> set ?vs" "lit ''IS'' \<in> set ?vs" by simp_all
  have h1: "ascii_lower (lit ''IS'') \<in> linking_verbs" by code_simp
  have h2: "lit ''IS'' \<notin> linking_verbs" by code_simp
  have h3: "ascii_lower (lit ''RUNNING'') \<notin> linking_verbs" by code_simp
  have h4: "ascii_lower (lit ''RUNNING'') \<notin> helping_verbs" by code_simp
  have h5: "endswith (lit ''RUNNING'') (lit ''ING'')" by code_simp
  have h6: "length (lit ''ING'') = 3" by code_simp
  have h7: "ascii_lower (lit ''ING'') = lit ''ing''" by code_simp
  have h8: "lit ''ING'' \<noteq> lit ''ing''" by code_simp
  from get_verb_categories_case_sensitivity [of ascii_lower ?vs "lit ''ING''"]
  obtain a l h i r where
    d: "get_verb_categories ascii_lower ?vs =
       [(lit ''action_verbs'', a), (lit ''linking_verbs'', l), (lit ''helping_verbs'', h),
        (lit ''irregular_verbs'', i), (lit ''regular_verbs'', r)]"
    and r1: "\<forall>v \<in> set ?vs. (v \<in> set l \<longleftrightarrow> ascii_lower v \<in> linking_verbs)"
    and r2: "\<forall>v \<in> set ?vs.
          ascii_lower v \<notin> linking_verbs \<and> ascii_lower v \<notin> helping_verbs
            \<and> endswith v (lit ''ING'')
            \<and> length (lit ''ING'') = 3 \<and> ascii_lower (lit ''ING'') = lit ''ing''
            \<and> lit ''ING'' \<noteq> lit ''ing''
             \<longrightarrow> v \<in> set i \<and> v \<notin> set a"
    by blast
  from r1 m(2) h1 have "lit ''IS'' \<in> set l" by blast
  moreover from r2 m(1) h3 h4 h5 h6 h7 h8
  have "lit ''RUNNING'' \<in> set i \<and> lit ''RUNNING'' \<notin> set a" by blast
  ultimately show ?thesis using d h1 h2 h3 h4 h5 h6 h7 h8 by blast
qed

section \<open>Properties of clean_text\<close>

subsection \<open>Splitting, joining, collapsing and stripping\<close>

lemma lit_space: "lit '' '' = [32]"
  by (simp add: lit_def)

lemma is_space_32: "is_space 32"
  by (simp add: is_space_def)

lemma py_join_Cons: "py_join sep (w # ws) = w @ (if ws = [] then [] else sep @ py_join sep ws)"
  by (cases ws) simp_all

lemma py_join_eq_Nil: "\<forall>w \<in> set ws. w \<noteq> [] \<Longrightarrow> py_join sep ws = [] \<longleftrightarrow> ws = []"
  by (cases ws) (simp_all add: py_join_Cons)

lemma set_py_join: "set (py_join sep ws) \<subseteq> set sep \<union> \<Union> (set ` set ws)"
  by (induction ws) (auto simp: py_join_Cons split: if_splits)

lemma py_split_all_words:
  "\<forall>w \<in> set (py_split s). w \<noteq> [] \<and> (\<forall>x \<in> set w. \<not> is_space x) \<and> set w \<subseteq> set s"
proof (induction s rule: py_split.induct)
  case 1
  show ?case by simp
next
  case (2 c cs)
  show ?case
  proof (cases "is_space c")
    case True
    from 2(1) [OF True] have "\<forall>w \<in> set (py_split cs). w \<noteq> [] \<and> (\<forall>x \<in> set w. \<not> is_space x) \<and> set w \<subseteq> set (c # cs)"
      by (simp add: subset_insertI2)
    then show ?thesis using True by simp
  next
    case False
    let ?t = "takeWhile (\<lambda>x. \<not> is_space x) cs"
    let ?d = "dropWhile (\<lambda>x. \<not> is_space x) cs"
    have d: "set ?d \<subseteq> set cs" by (auto dest: set_dropWhileD)
    have t: "set ?t \<subseteq> set cs" by (auto dest: set_takeWhileD)
    have tn: "\<forall>x \<in> set ?t. \<not> is_space x" by (auto dest: set_takeWhileD)
    from 2(2) [OF False] d
    have rest: "\<forall>w \<in> set (py_split ?d). w \<noteq> [] \<and> (\<forall>x \<in> set w. \<not> is_space x) \<and> set w \<subseteq> set (c # cs)"
      by (meson order_trans set_subset_Cons)
    have first: "(\<forall>x \<in> set (c # ?t). \<not> is_space x) \<and> set (c # ?t) \<subseteq> set (c # cs)"
      using False t tn by auto
    have eq: "py_split (c # cs) = (c # ?t) # py_split ?d"
      using False by simp
    show ?thesis
    proof
      fix w
      assume "w \<in> set (py_split (c # cs))"
      then consider "w = c # ?t" | "w \<in> set (py_split ?d)"
        unfolding eq by auto
      then show "w \<noteq> [] \<and> (\<forall>x \<in> set w. \<not> is_space x) \<and> set w \<subseteq> set (c # cs)"
      proof cases
        case 1
        with first show ?thesis by blast
      next
        case 2
        with rest show ?thesis by blast
      qed
    qed
  qed
qed

lemma py_split_words:
  "w \<in> set (py_split s) \<Longrightarrow> w \<noteq> [] \<and> (\<forall>x \<in> set w. \<not> is_space x) \<and> set w \<subseteq> set s"
  using py_split_all_words by blast

lemma py_split_dropWhile: "py_split (dropWhile is_space s) = py_split s"
  by (induction s) simp_all

lemma py_split_append:
  assumes "\<forall>x \<in> set w. \<not> is_space x" and "t = [] \<or> is_space (hd t)"
  shows "py_split (w @ t) = (if w = [] then [] else [w]) @ py_split t"
proof (cases w)
  case Nil
  then show ?thesis by simp
next
  case (Cons c w')
  from assms(2) have "takeWhile (\<lambda>x. \<not> is_space x) t = []"
    by (cases t) auto
  moreover from assms(2) have "dropWhile (\<lambda>x. \<not> is_space x) t = t"
    by (cases t) auto
  ultimately show ?thesis using assms(1) Cons
    by (simp add: takeWhile_append2 dropWhile_append2)
qed

lemma py_split_py_join:
  assumes "\<forall>w \<in> set ws. w \<noteq> [] \<and> (\<forall>x \<in> set w. \<not> is_space x)"
  shows "py_split (py_join [32] ws) = ws"
  using assms
proof (induction ws)
  case Nil
  then show ?case by simp
next
  case (Cons w ws)
  then have ih: "py_split (py_join [32] ws) = ws" by simp
  from Cons.prems have w: "w \<noteq> []" "\<forall>x \<in> set w. \<not> is_space x" by simp_all
  show ?case
  proof (cases "ws = []")
    case True
    with w py_split_append [of w "[]"] show ?thesis by simp
  next
    case False
    have "py_split (w @ 32 # py_join [32] ws) = [w] @ py_split (32 # py_join [32] ws)"
      using py_split_append [of w "32 # py_join [32] ws"] w by (simp add: is_space_32)
    with False ih show ?thesis
      by (simp add: py_join_Cons is_space_32)
  qed
qed

lemma collapse_ws_dropWhile:
  "dropWhile is_space (collapse_ws t) = collapse_ws (dropWhile is_space t)"
  by (induction t rule: collapse_ws.induct) (simp_all add: is_space_32)

lemma collapse_ws_append:
  "\<forall>x \<in> set w. \<not> is_space x \<Longrightarrow> collapse_ws (w @ t) = w @ collapse_ws t"
  by (induction w) simp_all

lemma py_strip_rstrip: "py_strip s = rstrip (dropWhile is_space s)"
  by (simp add: py_strip_def rstrip_def)

lemma rstrip_Nil: "rstrip [] = []"
  by (simp add: rstrip_def)

lemma rstrip_eq_Nil: "rstrip s = [] \<longleftrightarrow> (\<forall>x \<in> set s. is_space x)"
  by (simp add: rstrip_def)

lemma rstrip_append:
  assumes "w \<noteq> []" and "\<not> is_space (last w)"
  shows "rstrip (w @ s) = w @ rstrip s"
proof -
  from assms have "dropWhile is_space (rev w) = rev w"
    by (cases w rule: rev_cases) simp_all
  then show ?thesis
    by (simp add: rstrip_def dropWhile_append)
qed

lemma rstrip_Cons_space:
  assumes "is_space c"
  shows "rstrip (c # s) = (if rstrip s = [] then [] else c # rstrip s)"
  using assms by (simp add: rstrip_def dropWhile_append)

lemma strip_collapse:
  "py_strip (collapse_ws t) = py_join [32] (py_split t)"
proof (induction t rule: py_split.induct)
  case 1
  show ?case by (simp add: py_strip_def)
next
  case (2 c cs)
  show ?case
  proof (cases "is_space c")
    case True
    have "py_strip (collapse_ws (c # cs)) = rstrip (collapse_ws (dropWhile is_space (c # cs)))"
      by (simp only: py_strip_rstrip collapse_ws_dropWhile)
    also have "\<dots> = rstrip (dropWhile is_space (collapse_ws cs))"
      using True by (simp add: collapse_ws_dropWhile)
    also have "\<dots> = py_join [32] (py_split cs)"
      using 2(1) [OF True] by (simp add: py_strip_rstrip)
    finally show ?thesis using True by simp
  next
    case False
    let ?w = "c # takeWhile (\<lambda>x. \<not> is_space x) cs"
    let ?rest = "dropWhile (\<lambda>x. \<not> is_space x) cs"
    have ih: "py_strip (collapse_ws ?rest) = py_join [32] (py_split ?rest)"
      using 2(2) [OF False] .
    have w: "\<forall>x \<in> set ?w. \<not> is_space x"
      using False by (auto dest: set_takeWhileD)
    have split: "c # cs = ?w @ ?rest" by simp
    have "collapse_ws (c # cs) = ?w @ collapse_ws ?rest"
      by (subst split) (rule collapse_ws_append [OF w])
    then have "py_strip (collapse_ws (c # cs)) = rstrip (?w @ collapse_ws ?rest)"
      using False by (simp add: py_strip_rstrip)
    also have "\<dots> = ?w @ rstrip (collapse_ws ?rest)"
      using w by (intro rstrip_append) simp_all
    also have "rstrip (collapse_ws ?rest) =
        (if py_split ?rest = [] then [] else [32] @ py_join [32] (py_split ?rest))"
    proof (cases ?rest)
      case Nil
      show ?thesis unfolding Nil by (simp add: rstrip_Nil)
    next
      case (Cons s1 r1)
      have "?rest \<noteq> []" using Cons by simp
      from hd_dropWhile [OF this] Cons have s1: "is_space s1" by simp
      let ?Y = "collapse_ws (dropWhile is_space r1)"
      have "?Y = dropWhile is_space (collapse_ws ?rest)"
        using s1 by (simp add: Cons collapse_ws_dropWhile is_space_32)
      then have Y: "rstrip ?Y = py_join [32] (py_split ?rest)"
        using ih by (simp add: py_strip_rstrip)
      have ne: "py_join [32] (py_split ?rest) = [] \<longleftrightarrow> py_split ?rest = []"
        by (rule py_join_eq_Nil) (auto dest: py_split_words)
      have "collapse_ws ?rest = 32 # ?Y"
        using s1 by (simp add: Cons)
      then have "rstrip (collapse_ws ?rest) = (if rstrip ?Y = [] then [] else 32 # rstrip ?Y)"
        by (simp add: rstrip_Cons_space is_space_32)
      then show ?thesis using Y ne by simp
    qed
    finally show ?thesis using False by (simp add: py_join_Cons)
  qed
qed

subsection \<open>The result of clean_text\<close>

lemma allowed_space: "is_space c \<Longrightarrow> allowed is_word c"
  by (simp add: allowed_def)

lemma remove_special_append:
  "remove_special is_word (xs @ ys) = remove_special is_word xs @ remove_special is_word ys"
  by (simp add: remove_special_def)

lemma remove_special_Cons_space:
  "is_space c \<Longrightarrow> remove_special is_word (c # cs) = c # remove_special is_word cs"
  by (simp add: remove_special_def allowed_space)

lemma remove_special_front:
  assumes "t = [] \<or> is_space (hd t)"
  shows "remove_special is_word t = [] \<or> is_space (hd (remove_special is_word t))"
  using assms by (cases t) (auto simp: remove_special_def allowed_space)

lemma remove_special_notspace:
  "\<forall>x \<in> set w. \<not> is_space x \<Longrightarrow> \<forall>x \<in> set (remove_special is_word w). \<not> is_space x"
  by (simp add: remove_special_def)

lemma remove_special_id:
  "\<forall>x \<in> set s. allowed is_word x \<Longrightarrow> remove_special is_word s = s"
  by (simp add: remove_special_def)

lemma split_remove_special:
  "py_split (remove_special is_word (py_join [32] (py_split s))) =
   py_split (remove_special is_word s)"
proof (induction s rule: py_split.induct)
  case 1
  show ?case by simp
next
  case (2 c cs)
  show ?case
  proof (cases "is_space c")
    case True
    with 2(1) [OF True] show ?thesis
      by (simp add: remove_special_Cons_space)
  next
    case False
    let ?w = "c # takeWhile (\<lambda>x. \<not> is_space x) cs"
    let ?rest = "dropWhile (\<lambda>x. \<not> is_space x) cs"
    let ?F = "remove_special is_word"
    let ?m = "if ?F ?w = [] then [] else [?F ?w]"
    have ih: "py_split (?F (py_join [32] (py_split ?rest))) = py_split (?F ?rest)"
      using 2(2) [OF False] .
    have w: "\<forall>x \<in> set ?w. \<not> is_space x"
      using False by (auto dest: set_takeWhileD)
    then have Fw: "\<forall>x \<in> set (?F ?w). \<not> is_space x"
      by (rule remove_special_notspace)
    have "?rest = [] \<or> is_space (hd ?rest)"
      using hd_dropWhile [of "\<lambda>x. \<not> is_space x" cs] by auto
    then have Frest: "?F ?rest = [] \<or> is_space (hd (?F ?rest))"
      by (rule remove_special_front)
    have "c # cs = ?w @ ?rest" by simp
    then have "?F (c # cs) = ?F ?w @ ?F ?rest"
      by (simp only: remove_special_append)
    then have rhs: "py_split (?F (c # cs)) = ?m @ py_split (?F ?rest)"
      using py_split_append [OF Fw Frest] by simp
    let ?t = "if py_split ?rest = [] then [] else 32 # ?F (py_join [32] (py_split ?rest))"
    let ?u = "if py_split ?rest = [] then [] else 32 # py_join [32] (py_split ?rest)"
    have j: "py_join [32] (py_split (c # cs)) = ?w @ ?u"
      using False by (simp add: py_join_Cons)
    have "?F ?u = ?t"
      by (simp add: remove_special_def allowed_space is_space_32)
    then have "?F (?w @ ?u) = ?F ?w @ ?t"
      by (simp only: remove_special_append)
    then have "?F (py_join [32] (py_split (c # cs))) = ?F ?w @ ?t"
      by (simp only: j)
    moreover have "?t = [] \<or> is_space (hd ?t)"
      by (simp add: is_space_32)
    ultimately have "py_split (?F (py_join [32] (py_split (c # cs)))) = ?m @ py_split ?t"
      using py_split_append [OF Fw, of ?t] by simp
    moreover have "py_split ?t = py_split (?F (py_join [32] (py_split ?rest)))"
      by (simp add: is_space_32 remove_special_def)
    ultimately show ?thesis using rhs ih by simp
  qed
qed

lemma clean_text_words:
  "clean_text is_word s = py_join [32] (py_split (remove_special is_word s))"
  by (simp add: clean_text_def Let_def lit_space strip_collapse split_remove_special)

lemma py_split_allowed:
  "\<forall>w \<in> set (py_split (remove_special is_word s)). \<forall>x \<in> set w. allowed is_word x"
proof
  fix w
  assume "w \<in> set (py_split (remove_special is_word s))"
  then have "set w \<subseteq> set (remove_special is_word s)"
    by (simp add: py_split_words)
  then show "\<forall>x \<in> set w. allowed is_word x"
    by (auto simp: remove_special_def)
qed

lemma clean_text_allowed: "\<forall>c \<in> set (clean_text is_word s). allowed is_word c"
proof
  fix c
  assume "c \<in> set (clean_text is_word s)"
  then have "c \<in> set [32] \<union> \<Union> (set ` set (py_split (remove_special is_word s)))"
    using set_py_join [of "[32]" "py_split (remove_special is_word s)"]
    by (auto simp: clean_text_words)
  then show "allowed is_word c"
    using py_split_allowed [of is_word s] by (auto simp: allowed_space is_space_32)
qed

text \<open>
  Claim C5. \<open>clean_text\<close> is idempotent: cleaning an already cleaned text returns it
  unchanged, for every input string and every class \<open>\w\<close>.
\<close>

theorem clean_text_idempotent:
  "clean_text is_word (clean_text is_word s) = clean_text is_word s"
proof -
  let ?ws = "py_split (remove_special is_word s)"
  have good: "\<forall>w \<in> set ?ws. w \<noteq> [] \<and> (\<forall>x \<in> set w. \<not> is_space x)"
    using py_split_all_words [of "remove_special is_word s"] by blast
  have "remove_special is_word (clean_text is_word s) = clean_text is_word s"
    by (rule remove_special_id) (rule clean_text_allowed)
  then have "clean_text is_word (clean_text is_word s) =
      py_join [32] (py_split (py_join [32] ?ws))"
    by (simp add: clean_text_words)
  also have "\<dots> = py_join [32] ?ws"
    by (simp only: py_split_py_join [OF good])
  finally show ?thesis by (simp add: clean_text_words)
qed

lemma hd_py_join: "w \<noteq> [] \<Longrightarrow> hd (py_join sep (w # ws)) = hd w"
  by (simp add: py_join_Cons)

lemma last_py_join:
  "\<forall>w \<in> set ws. w \<noteq> [] \<Longrightarrow> ws \<noteq> [] \<Longrightarrow> last (py_join sep ws) = last (last ws)"
proof (induction ws)
  case Nil
  then show ?case by simp
next
  case (Cons w ws)
  show ?case
  proof (cases "ws = []")
    case True
    then show ?thesis by simp
  next
    case False
    with Cons.prems have "py_join sep ws \<noteq> []"
      by (simp add: py_join_eq_Nil)
    with Cons False show ?thesis
      by (simp add: py_join_Cons)
  qed
qed

lemma successively_word:
  "\<forall>x \<in> set w. \<not> is_space x \<Longrightarrow> successively (\<lambda>a b. \<not> (is_space a \<and> is_space b)) w"
  by (induction w) (auto simp: successively_Cons)

lemma py_join_ends:
  assumes "\<forall>w \<in> set ws. w \<noteq> [] \<and> (\<forall>x \<in> set w. \<not> is_space x)" and "ws \<noteq> []"
  shows "py_join [32] ws \<noteq> [] \<and> \<not> is_space (hd (py_join [32] ws))
         \<and> \<not> is_space (last (py_join [32] ws))"
proof -
  from assms obtain w ws' where ws: "ws = w # ws'" by (cases ws) auto
  with assms(1) have w: "w \<noteq> []" "\<forall>x \<in> set w. \<not> is_space x" by simp_all
  then have "\<not> is_space (hd w)" by (cases w) simp_all
  then have h: "\<not> is_space (hd (py_join [32] ws))"
    using w(1) by (simp add: ws hd_py_join)
  from assms have l: "last ws \<noteq> []" "\<forall>x \<in> set (last ws). \<not> is_space x"
    using last_in_set [OF assms(2)] by blast+
  then have "\<not> is_space (last (last ws))" by (cases "last ws" rule: rev_cases) simp_all
  moreover from assms have "last (py_join [32] ws) = last (last ws)"
    by (intro last_py_join) auto
  moreover from assms have "py_join [32] ws \<noteq> []"
    by (simp add: py_join_eq_Nil)
  ultimately show ?thesis using h by simp
qed

lemma successively_py_join:
  assumes "\<forall>w \<in> set ws. w \<noteq> [] \<and> (\<forall>x \<in> set w. \<not> is_space x)"
  shows "successively (\<lambda>a b. \<not> (is_space a \<and> is_space b)) (py_join [32] ws)"
  using assms
proof (induction ws)
  case Nil
  show ?case by simp
next
  case (Cons w ws)
  let ?P = "\<lambda>a b. \<not> (is_space a \<and> is_space b)"
  from Cons.prems have w: "w \<noteq> []" "\<forall>x \<in> set w. \<not> is_space x" by simp_all
  have sw: "successively ?P w" using w(2) by (rule successively_word)
  show ?case
  proof (cases "ws = []")
    case True
    with sw show ?thesis by simp
  next
    case False
    from Cons have ih: "successively ?P (py_join [32] ws)" by simp
    from Cons.prems False have e: "\<not> is_space (hd (py_join [32] ws))"
      using py_join_ends [of ws] by simp
    have "\<not> is_space (last w)" using w by (cases w rule: rev_cases) simp_all
    then have "successively ?P (w @ 32 # py_join [32] ws)"
      using sw ih e by (simp add: successively_append_iff successively_Cons)
    with False show ?thesis by (simp add: py_join_Cons)
  qed
qed

text \<open>
  Claim C6. For every input string, \<open>clean_text\<close> returns the words of the input, each
  with its characters outside the allow-list (word characters, whitespace and the
  punctuation \<open>. , ! ? - : ; ' " ( )\<close>) removed, joined by single spaces. So every
  character of the result is in the allow-list, every whitespace character of the result
  is a space, no two whitespace characters are adjacent, and the result neither begins
  nor ends with whitespace. \<open>clean_text\<close> is a function of the input string (and of the
  class \<open>\w\<close>) alone: it reads and writes no state.
\<close>

theorem clean_text_result:
  "clean_text is_word s = py_join (lit '' '') (py_split (remove_special is_word s))
   \<and> (\<forall>c \<in> set (clean_text is_word s). allowed is_word c)
   \<and> (\<forall>c \<in> set (clean_text is_word s). is_space c \<longrightarrow> c = 32)
   \<and> (\<forall>i. Suc i < length (clean_text is_word s) \<longrightarrow>
         \<not> (is_space (clean_text is_word s ! i) \<and> is_space (clean_text is_word s ! Suc i)))
   \<and> (clean_text is_word s \<noteq> [] \<longrightarrow>
         \<not> is_space (hd (clean_text is_word s)) \<and> \<not> is_space (last (clean_text is_word s)))"
proof -
  let ?ws = "py_split (remove_special is_word s)"
  let ?r = "clean_text is_word s"
  have r: "?r = py_join [32] ?ws" by (rule clean_text_words)
  have good: "\<forall>w \<in> set ?ws. w \<noteq> [] \<and> (\<forall>x \<in> set w. \<not> is_space x)"
    using py_split_all_words [of "remove_special is_word s"] by blast
  have c1: "?r = py_join (lit '' '') ?ws" by (simp only: r lit_space)
  have c2: "\<forall>c \<in> set ?r. allowed is_word c" by (rule clean_text_allowed)
  have c3: "\<forall>c \<in> set ?r. is_space c \<longrightarrow> c = 32"
  proof (intro ballI impI)
    fix c assume "c \<in> set ?r" and sp: "is_space c"
    then have "c \<in> set [32] \<union> \<Union> (set ` set ?ws)"
      using set_py_join [of "[32]" ?ws] r by auto
    with good sp show "c = 32" by auto
  qed
  have "successively (\<lambda>a b. \<not> (is_space a \<and> is_space b)) ?r"
    unfolding r using good by (rule successively_py_join)
  then have c4: "\<forall>i. Suc i < length ?r \<longrightarrow> \<not> (is_space (?r ! i) \<and> is_space (?r ! Suc i))"
    by (simp only: successively_conv_nth)
  have c5: "?r \<noteq> [] \<longrightarrow> \<not> is_space (hd ?r) \<and> \<not> is_space (last ?r)"
  proof
    assume "?r \<noteq> []"
    then have "?ws \<noteq> []" using r by auto
    with good show "\<not> is_space (hd ?r) \<and> \<not> is_space (last ?r)"
      using py_join_ends [of ?ws] r by simp
  qed
  from c1 c2 c3 c4 c5 show ?thesis by blast
qed

theorem clean_text_result_witness:
  "clean_text ascii_word (lit ''  a #  b '') = lit ''a b''
   \<and> 32 \<in> set (clean_text ascii_word (lit ''  a #  b ''))
   \<and> is_space 32 \<and> allowed ascii_word 32
   \<and> Suc 0 < length (clean_text ascii_word (lit ''  a #  b ''))
   \<and> \<not> (is_space (clean_text ascii_word (lit ''  a #  b '') ! 0)
        \<and> is_space (clean_text ascii_word (lit ''  a #  b '') ! Suc 0))
   \<and> clean_text ascii_word (lit ''  a #  b '') \<noteq> []
   \<and> \<not> is_space (hd (clean_text ascii_word (lit ''  a #  b '')))
   \<and> \<not> is_space (last (clean_text ascii_word (lit ''  a #  b '')))
   \<and> \<not> allowed ascii_word 35"
proof -
  let ?s = "lit ''  a #  b ''"
  have e: "clean_text ascii_word ?s = lit ''a b''"
    by (simp add: clean_text_def lit_def is_space_def remove_special_def allowed_def
        ascii_word_def punctuation_def py_strip_def)
  have m: "32 \<in> set (clean_text ascii_word ?s)" unfolding e by (simp add: lit_def)
  have l: "Suc 0 < length (clean_text ascii_word ?s)" unfolding e by (simp add: lit_def)
  have n: "clean_text ascii_word ?s \<noteq> []" unfolding e by (simp add: lit_def)
  have d: "\<not> allowed ascii_word 35"
    by (simp add: allowed_def ascii_word_def is_space_def punctuation_def lit_def)
  from clean_text_result [of ascii_word ?s] e m l n d is_space_32 show ?thesis
    by blast
qed

section \<open>Properties of extract_verbs\<close>

lemma log_and_reraise_Inr:
  "log_and_reraise prefix (out, lg) = (Inr r, lg') \<longleftrightarrow> out = Inr r \<and> lg' = lg"
  by (auto simp: log_and_reraise_def split: sum.splits)

lemma sum_counter_add: "sum_list (map snd (counter_add x d)) = Suc (sum_list (map snd d))"
  by (induction d) auto

lemma sum_foldl_counter_add:
  "sum_list (map snd (foldl (\<lambda>d x. counter_add x d) d xs)) = sum_list (map snd d) + length xs"
  by (induction xs arbitrary: d) (simp_all add: sum_counter_add)

lemma sum_Counter: "sum_list (map snd (Counter xs)) = length xs"
  by (simp add: Counter_def sum_foldl_counter_add)

lemma length_verbs_of: "length (verbs_of lower tagged) = length (verb_tagged tagged)"
  by (simp add: verbs_of_def)

lemma verb_tagged_concat: "verb_tagged (concat xss) = concat (map verb_tagged xss)"
  by (induction xss) (simp_all add: verb_tagged_def)

lemma extract_verbs_Inr:
  assumes "extract_verbs lower nl text lg = (Inr r, lg')"
  shows "\<exists>sents words tagged_words sa.
      sent_tokenize nl text = Inr sents \<and> word_tokenize nl text = Inr words
    \<and> pos_tag nl words = Inr tagged_words
    \<and> analyze_sentences lower nl 1 sents = Inr sa
    \<and> sentences r = sents \<and> total_sentences r = length sents
    \<and> total_words r = length words
    \<and> verb_counts r = Counter (verbs_of lower tagged_words)
    \<and> verbs r = map fst (Counter (verbs_of lower tagged_words))
    \<and> total_verb_instances r = length (verb_tagged tagged_words)
    \<and> sentence_analysis r = sa
    \<and> sentences_with_verbs r = length (filter (\<lambda>s. verb_count s > 0) sa)
    \<and> sentences_without_verbs r = length (filter (\<lambda>s. verb_count s = 0) sa)
    \<and> lg' = lg"
proof -
  from assms have b: "extract_verbs_body lower nl text = Inr r" and l: "lg' = lg"
    by (simp_all add: extract_verbs_def log_and_reraise_Inr)
  from b obtain sents where s: "sent_tokenize nl text = Inr sents"
    by (cases "sent_tokenize nl text") (simp_all add: extract_verbs_body_def)
  from b s obtain words where w: "word_tokenize nl text = Inr words"
    by (cases "word_tokenize nl text") (simp_all add: extract_verbs_body_def)
  from b s w obtain tw where t: "pos_tag nl words = Inr tw"
    by (cases "pos_tag nl words") (simp_all add: extract_verbs_body_def)
  from b s w t obtain sa where a: "analyze_sentences lower nl 1 sents = Inr sa"
    by (cases "analyze_sentences lower nl 1 sents") (simp_all add: extract_verbs_body_def Let_def)
  from b s w t a have r: "r =
      \<lparr>input_text = text, sentences = sents, total_words = length words,
       total_sentences = length sents, verbs = map fst (Counter (verbs_of lower tw)),
       verb_counts = Counter (verbs_of lower tw),
       total_unique_verbs = length (map fst (Counter (verbs_of lower tw))),
       total_verb_instances = sum_list (map snd (Counter (verbs_of lower tw))),
       sentence_analysis = sa,
       sentences_with_verbs = length (filter (\<lambda>s. verb_count s > 0) sa),
       sentences_without_verbs = length (filter (\<lambda>s. verb_count s = 0) sa),
       most_common_verbs = most_common 10 (Counter (verbs_of lower tw))\<rparr>"
    by (simp add: extract_verbs_body_def Let_def)
  have "total_verb_instances r = length (verb_tagged tw)"
    by (simp add: r sum_Counter length_verbs_of)
  with s w t a l show ?thesis
    by (simp add: r)
qed

lemma analyze_sentences_length:
  "analyze_sentences lower nl i ss = Inr sa \<Longrightarrow> length sa = length ss"
proof (induction ss arbitrary: i sa)
  case Nil
  then show ?case by simp
next
  case (Cons s ss)
  then show ?case
    by (auto simp: Let_def split: sum.splits)
qed


text \<open>
  Claim C2. For every input text on which \<open>extract_verbs\<close> returns, the field
  \<open>sentences_with_verbs\<close> plus the field \<open>sentences_without_verbs\<close> equals the field
  \<open>total_sentences\<close>, which is the number of sentences that sentence tokenization
  produced.
\<close>

theorem extract_verbs_sentence_counts:
  assumes "extract_verbs lower nl text lg = (Inr r, lg')"
  shows "sent_tokenize nl text = Inr (sentences r)
       \<and> total_sentences r = length (sentences r)
       \<and> sentences_with_verbs r + sentences_without_verbs r = total_sentences r"
proof -
  from extract_verbs_Inr [OF assms] obtain sa where
    s: "sent_tokenize nl text = Inr (sentences r)" "total_sentences r = length (sentences r)"
    and a: "analyze_sentences lower nl 1 (sentences r) = Inr sa"
    and c: "sentences_with_verbs r = length (filter (\<lambda>s. verb_count s > 0) sa)"
      "sentences_without_verbs r = length (filter (\<lambda>s. verb_count s = 0) sa)"
    by auto
  have "length (filter (\<lambda>s. verb_count s > 0) sa) + length (filter (\<lambda>s. \<not> verb_count s > 0) sa)
      = length sa"
    by (rule sum_length_filter_compl)
  then have "sentences_with_verbs r + sentences_without_verbs r = length sa"
    by (simp add: c)
  with analyze_sentences_length [OF a] s show ?thesis by simp
qed


subsection \<open>Concrete runs and texts without verbs\<close>

lemmas nltk_eval_defs =
  extract_verbs_def log_and_reraise_def extract_verbs_body_def lexicon_nltk_def
  contextual_nltk_def Let_def verbs_of_def verb_tagged_def lexicon_tag_def Counter_def
  most_common_def startswith_def endswith_def lit_def ascii_lower_def linking_verbs_def
  helping_verbs_def is_space_def


theorem extract_verbs_sentence_counts_witness:
  "extract_verbs ascii_lower lexicon_nltk (lit ''It is'' @ [10] @ lit ''Go home'') [] =
     (Inr (projr (fst (extract_verbs ascii_lower lexicon_nltk (lit ''It is'' @ [10] @ lit ''Go home'') []))), [])
   \<and> sentences_with_verbs
        (projr (fst (extract_verbs ascii_lower lexicon_nltk (lit ''It is'' @ [10] @ lit ''Go home'') [])))
     + sentences_without_verbs
        (projr (fst (extract_verbs ascii_lower lexicon_nltk (lit ''It is'' @ [10] @ lit ''Go home'') [])))
     = total_sentences
        (projr (fst (extract_verbs ascii_lower lexicon_nltk (lit ''It is'' @ [10] @ lit ''Go home'') [])))
   \<and> total_sentences
        (projr (fst (extract_verbs ascii_lower lexicon_nltk (lit ''It is'' @ [10] @ lit ''Go home'') []))) = 2
   \<and> sentences_with_verbs
        (projr (fst (extract_verbs ascii_lower lexicon_nltk (lit ''It is'' @ [10] @ lit ''Go home'') []))) = 1"
proof -
  let ?X = "extract_verbs ascii_lower lexicon_nltk (lit ''It is'' @ [10] @ lit ''Go home'') []"
  have h: "?X = (Inr (projr (fst ?X)), [])"
    by (simp add: nltk_eval_defs)
  have t: "total_sentences (projr (fst ?X)) = 2"
    by (simp add: nltk_eval_defs)
  have w: "sentences_with_verbs (projr (fst ?X)) = 1"
    by (simp add: nltk_eval_defs)
  from extract_verbs_sentence_counts [OF h] h t w show ?thesis
    by blast
qed








section \<open>Properties of extract_text\<close>

lemma dict_set_fresh: "k \<notin> fst ` set d \<Longrightarrow> dict_set k v d = d @ [(k, v)]"
  by (induction d) auto

lemma method_names_distinct:
  "distinct [lit ''simple_threshold'', lit ''adaptive_threshold'', lit ''otsu_threshold'',
             lit ''gaussian_otsu'']"
  by (simp add: lit_def)

lemma processed_images_dict:
  "dict_set (lit ''gaussian_otsu'') t4
     (dict_set (lit ''otsu_threshold'') t3
       (dict_set (lit ''adaptive_threshold'') t2
         (dict_set (lit ''simple_threshold'') t1 []))) =
   [(lit ''simple_threshold'', t1), (lit ''adaptive_threshold'', t2),
    (lit ''otsu_threshold'', t3), (lit ''gaussian_otsu'', t4)]"
  using method_names_distinct by auto

lemma preprocess_image_Inr:
  assumes "preprocess_image lib image_path lg = (Inr imgs, lg')"
  shows "lg' = lg \<and> (\<exists>img gray blurred t1 t2 t3 t4.
      imread lib image_path = Inr (Some img)
    \<and> cvtColor lib img COLOR_BGR2GRAY = Inr gray
    \<and> GaussianBlur lib gray (5, 5) 0 = Inr blurred
    \<and> threshold lib gray 150 255 [THRESH_BINARY] = Inr t1
    \<and> adaptiveThreshold lib gray 255 ADAPTIVE_THRESH_GAUSSIAN_C THRESH_BINARY 11 2 = Inr t2
    \<and> threshold lib gray 0 255 [THRESH_BINARY, THRESH_OTSU] = Inr t3
    \<and> threshold lib blurred 0 255 [THRESH_BINARY, THRESH_OTSU] = Inr t4
    \<and> imgs = [(lit ''simple_threshold'', t1), (lit ''adaptive_threshold'', t2),
               (lit ''otsu_threshold'', t3), (lit ''gaussian_otsu'', t4)])"
proof -
  from assms have b: "preprocess_image_body lib image_path = Inr imgs" and l: "lg' = lg"
    by (simp_all add: preprocess_image_def log_and_reraise_Inr)
  from b obtain img where 1: "imread lib image_path = Inr (Some img)"
    by (auto simp: preprocess_image_body_def split: sum.splits option.splits)
  from b 1 obtain gray where 2: "cvtColor lib img COLOR_BGR2GRAY = Inr gray"
    by (auto simp: preprocess_image_body_def split: sum.splits)
  from b 1 2 obtain t1 where 3: "threshold lib gray 150 255 [THRESH_BINARY] = Inr t1"
    by (auto simp: preprocess_image_body_def split: sum.splits)
  from b 1 2 3 obtain t2 where
    4: "adaptiveThreshold lib gray 255 ADAPTIVE_THRESH_GAUSSIAN_C THRESH_BINARY 11 2 = Inr t2"
    by (auto simp: preprocess_image_body_def Let_def split: sum.splits)
  from b 1 2 3 4 obtain t3 where
    5: "threshold lib gray 0 255 [THRESH_BINARY, THRESH_OTSU] = Inr t3"
    by (auto simp: preprocess_image_body_def Let_def split: sum.splits)
  from b 1 2 3 4 5 obtain blurred where 6: "GaussianBlur lib gray (5, 5) 0 = Inr blurred"
    by (auto simp: preprocess_image_body_def Let_def split: sum.splits)
  from b 1 2 3 4 5 6 obtain t4 where
    7: "threshold lib blurred 0 255 [THRESH_BINARY, THRESH_OTSU] = Inr t4"
    by (auto simp: preprocess_image_body_def Let_def split: sum.splits)
  from b 1 2 3 4 5 6 7 have "imgs =
      dict_set (lit ''gaussian_otsu'') t4
       (dict_set (lit ''otsu_threshold'') t3
         (dict_set (lit ''adaptive_threshold'') t2
           (dict_set (lit ''simple_threshold'') t1 [])))"
    by (simp add: preprocess_image_body_def Let_def del: dict_set.simps)
  then have "imgs = [(lit ''simple_threshold'', t1), (lit ''adaptive_threshold'', t2),
               (lit ''otsu_threshold'', t3), (lit ''gaussian_otsu'', t4)]"
    by (simp only: processed_images_dict)
  with l 1 2 3 4 5 6 7 show ?thesis by blast
qed

lemma ocr_all_Inr:
  assumes "ocr_all lib imgs acc = Inr res"
    and "distinct (map fst imgs)"
    and "set (map fst imgs) \<inter> set (map fst acc) = {}"
  shows "\<exists>new. res = acc @ new \<and>
     list_all2 (\<lambda>i m. fst m = fst i
        \<and> (\<exists>pil. fromarray lib (snd i) = Inr pil
              \<and> image_to_string lib pil = Inr (result_text (snd m)))
        \<and> result_length (snd m) = length (py_strip (result_text (snd m)))) imgs new"
  using assms
proof (induction imgs arbitrary: acc)
  case Nil
  then show ?case by simp
next
  case (Cons i imgs)
  obtain n img where i: "i = (n, img)" by (cases i)
  from Cons.prems(1) i obtain pil rtext where p: "fromarray lib img = Inr pil"
    and t: "image_to_string lib pil = Inr rtext"
    and rest: "ocr_all lib imgs
        (dict_set n \<lparr>result_text = rtext, result_length = length (py_strip rtext)\<rparr> acc) = Inr res"
    by (auto split: sum.splits)
  let ?m = "\<lparr>result_text = rtext, result_length = length (py_strip rtext)\<rparr>"
  from Cons.prems(3) i have "n \<notin> fst ` set acc" by auto
  then have ds: "dict_set n ?m acc = acc @ [(n, ?m)]" by (rule dict_set_fresh)
  from Cons.prems(2,3) i have d: "distinct (map fst imgs)"
    and dj: "set (map fst imgs) \<inter> set (map fst (acc @ [(n, ?m)])) = {}"
    by auto
  from Cons.IH [OF rest [unfolded ds] d dj] obtain new where
    r: "res = (acc @ [(n, ?m)]) @ new"
    and l: "list_all2 (\<lambda>i m. fst m = fst i
        \<and> (\<exists>pil. fromarray lib (snd i) = Inr pil
              \<and> image_to_string lib pil = Inr (result_text (snd m)))
        \<and> result_length (snd m) = length (py_strip (result_text (snd m)))) imgs new"
    by blast
  have "list_all2 (\<lambda>i m. fst m = fst i
        \<and> (\<exists>pil. fromarray lib (snd i) = Inr pil
              \<and> image_to_string lib pil = Inr (result_text (snd m)))
        \<and> result_length (snd m) = length (py_strip (result_text (snd m))))
      (i # imgs) ((n, ?m) # new)"
    using l p t i by simp
  moreover have "res = acc @ ((n, ?m) # new)" using r by simp
  ultimately show ?case by blast
qed

lemma dict_get_entry:
  "distinct (map fst d) \<Longrightarrow> (k, v) \<in> set d \<Longrightarrow> dict_get k d = Inr v"
  by (simp add: dict_get_def)

lemma length_key_entry:
  "distinct (map fst res) \<Longrightarrow> e \<in> set res \<Longrightarrow>
   length_key res (fst e) = Inr (result_length (snd e))"
  by (cases e) (simp add: length_key_def dict_get_entry)

lemma max_from_entries:
  assumes "distinct (map fst res)" and "set es \<subseteq> set res"
  shows "(max_from (length_key res) k kl (map fst es) = Inr k
            \<and> (\<forall>e \<in> set es. result_length (snd e) \<le> kl))
       \<or> (\<exists>ys m zs. es = ys @ m # zs
            \<and> max_from (length_key res) k kl (map fst es) = Inr (fst m)
            \<and> kl < result_length (snd m)
            \<and> (\<forall>y \<in> set ys. result_length (snd y) < result_length (snd m))
            \<and> (\<forall>z \<in> set zs. result_length (snd z) \<le> result_length (snd m)))"
  using assms(2)
proof (induction es arbitrary: k kl)
  case Nil
  show ?case by simp
next
  case (Cons e es)
  from Cons.prems have e: "length_key res (fst e) = Inr (result_length (snd e))"
    and sub: "set es \<subseteq> set res"
    using length_key_entry [OF assms(1)] by auto
  let ?l = "\<lambda>x. result_length (snd x)"
  show ?case
  proof (cases "kl < ?l e")
    case True
    then have step: "max_from (length_key res) k kl (map fst (e # es)) =
        max_from (length_key res) (fst e) (?l e) (map fst es)"
      by (simp add: e)
    from Cons.IH [OF sub, of "fst e" "?l e"] show ?thesis
    proof
      assume a: "max_from (length_key res) (fst e) (?l e) (map fst es) = Inr (fst e)
            \<and> (\<forall>x \<in> set es. ?l x \<le> ?l e)"
      have "e # es = [] @ e # es" by simp
      with a step True show ?thesis by (metis empty_iff list.set(1))
    next
      assume "\<exists>ys m zs. es = ys @ m # zs
            \<and> max_from (length_key res) (fst e) (?l e) (map fst es) = Inr (fst m)
            \<and> ?l e < ?l m
            \<and> (\<forall>y \<in> set ys. ?l y < ?l m)
            \<and> (\<forall>z \<in> set zs. ?l z \<le> ?l m)"
      then obtain ys m zs where a: "es = ys @ m # zs"
        "max_from (length_key res) (fst e) (?l e) (map fst es) = Inr (fst m)"
        "?l e < ?l m" "\<forall>y \<in> set ys. ?l y < ?l m" "\<forall>z \<in> set zs. ?l z \<le> ?l m"
        by blast
      have 1: "e # es = (e # ys) @ m # zs" using a(1) by simp
      have 2: "\<forall>y \<in> set (e # ys). ?l y < ?l m" using a(3,4) by simp
      have 3: "kl < ?l m" using True a(3) by simp
      from 1 2 3 a(2,5) step show ?thesis by metis
    qed
  next
    case False
    then have step: "max_from (length_key res) k kl (map fst (e # es)) =
        max_from (length_key res) k kl (map fst es)"
      by (simp add: e)
    from Cons.IH [OF sub, of k kl] show ?thesis
    proof
      assume a: "max_from (length_key res) k kl (map fst es) = Inr k
            \<and> (\<forall>x \<in> set es. ?l x \<le> kl)"
      with False step have "max_from (length_key res) k kl (map fst (e # es)) = Inr k
            \<and> (\<forall>x \<in> set (e # es). ?l x \<le> kl)"
        by simp
      then show ?thesis by blast
    next
      assume "\<exists>ys m zs. es = ys @ m # zs
            \<and> max_from (length_key res) k kl (map fst es) = Inr (fst m)
            \<and> kl < ?l m
            \<and> (\<forall>y \<in> set ys. ?l y < ?l m)
            \<and> (\<forall>z \<in> set zs. ?l z \<le> ?l m)"
      then obtain ys m zs where a: "es = ys @ m # zs"
        "max_from (length_key res) k kl (map fst es) = Inr (fst m)"
        "kl < ?l m" "\<forall>y \<in> set ys. ?l y < ?l m" "\<forall>z \<in> set zs. ?l z \<le> ?l m"
        by blast
      have 1: "e # es = (e # ys) @ m # zs" using a(1) by simp
      have 2: "\<forall>y \<in> set (e # ys). ?l y < ?l m" using False a(3,4) by simp
      from 1 2 a(2,3,5) step show ?thesis by metis
    qed
  qed
qed

lemma py_max_entries:
  assumes "distinct (map fst res)" and "py_max (length_key res) (map fst res) = Inr best"
  shows "\<exists>ys m zs. res = ys @ m # zs \<and> best = fst m
            \<and> (\<forall>y \<in> set ys. result_length (snd y) < result_length (snd m))
            \<and> (\<forall>z \<in> set zs. result_length (snd z) \<le> result_length (snd m))"
proof (cases res)
  case Nil
  with assms(2) show ?thesis by simp
next
  case (Cons e es)
  let ?l = "\<lambda>x. result_length (snd x)"
  have e: "length_key res (fst e) = Inr (?l e)"
    using length_key_entry [OF assms(1), of e] Cons by simp
  have sub: "set es \<subseteq> set res" using Cons by auto
  have mf: "map fst res = fst e # map fst es" using Cons by simp
  from assms(2) have b: "max_from (length_key res) (fst e) (?l e) (map fst es) = Inr best"
    unfolding mf by (simp add: e)
  from max_from_entries [OF assms(1) sub, of "fst e" "?l e"] show ?thesis
  proof
    assume "max_from (length_key res) (fst e) (?l e) (map fst es) = Inr (fst e)
            \<and> (\<forall>x \<in> set es. ?l x \<le> ?l e)"
    with b have "best = fst e" "\<forall>z \<in> set es. ?l z \<le> ?l e" by simp_all
    moreover have "res = [] @ e # es" using Cons by simp
    ultimately show ?thesis by (metis empty_iff list.set(1))
  next
    assume "\<exists>ys m zs. es = ys @ m # zs
            \<and> max_from (length_key res) (fst e) (?l e) (map fst es) = Inr (fst m)
            \<and> ?l e < ?l m
            \<and> (\<forall>y \<in> set ys. ?l y < ?l m)
            \<and> (\<forall>z \<in> set zs. ?l z \<le> ?l m)"
    then obtain ys m zs where a: "es = ys @ m # zs"
      "max_from (length_key res) (fst e) (?l e) (map fst es) = Inr (fst m)"
      "?l e < ?l m" "\<forall>y \<in> set ys. ?l y < ?l m" "\<forall>z \<in> set zs. ?l z \<le> ?l m"
      by blast
    have 1: "res = (e # ys) @ m # zs" using a(1) Cons by simp
    have 2: "\<forall>y \<in> set (e # ys). ?l y < ?l m" using a(3,4) by simp
    from a(2) b have "best = fst m" by simp
    with 1 2 a(5) show ?thesis by metis
  qed
qed

text \<open>
  Claim C7. When \<open>extract_text\<close> is called with \<open>preprocess\<close> true and returns, the four
  fixed transforms of the grey image have been computed and each has been passed to the
  OCR call; the returned details list the four methods in the order of the transforms,
  each with the recognised text and the length of the stripped text; the best method is
  one of them, the best text is its recognised text, every method listed before it has a
  strictly smaller stripped length and every method listed after it a stripped length
  that is not greater. So the best method has maximal stripped length, and of several
  such methods the first in iteration order is chosen.
\<close>

theorem extract_text_best:
  assumes "extract_text lib image_path True lg = (Inr (best_text, d), lg')"
  shows "\<exists>img gray blurred imgs before r after.
      imread lib image_path = Inr (Some img)
    \<and> cvtColor lib img COLOR_BGR2GRAY = Inr gray
    \<and> GaussianBlur lib gray (5, 5) 0 = Inr blurred
    \<and> map fst imgs = [lit ''simple_threshold'', lit ''adaptive_threshold'',
                       lit ''otsu_threshold'', lit ''gaussian_otsu'']
    \<and> map (\<lambda>i. Inr (snd i)) imgs =
         [threshold lib gray 150 255 [THRESH_BINARY],
          adaptiveThreshold lib gray 255 ADAPTIVE_THRESH_GAUSSIAN_C THRESH_BINARY 11 2,
          threshold lib gray 0 255 [THRESH_BINARY, THRESH_OTSU],
          threshold lib blurred 0 255 [THRESH_BINARY, THRESH_OTSU]]
    \<and> list_all2 (\<lambda>i m. fst m = fst i
          \<and> (\<exists>pil. fromarray lib (snd i) = Inr pil
                \<and> image_to_string lib pil = Inr (result_text (snd m)))
          \<and> result_length (snd m) = length (py_strip (result_text (snd m))))
        imgs (all_methods d)
    \<and> all_methods d = before @ (best_method d, r) # after
    \<and> best_text = result_text r
    \<and> (\<forall>m \<in> set before. result_length (snd m) < result_length r)
    \<and> (\<forall>m \<in> set after. result_length (snd m) \<le> result_length r)
    \<and> preprocessed d \<and> lg' = lg"
proof -
  from assms have b: "extract_text_body lib image_path True lg = (Inr (best_text, d), lg')"
    by (cases "extract_text_body lib image_path True lg")
       (simp add: extract_text_def log_and_reraise_Inr)
  from b obtain imgs lg1 where p: "preprocess_image lib image_path lg = (Inr imgs, lg1)"
    by (auto simp: extract_text_body_def split: prod.splits sum.splits)
  from preprocess_image_Inr [OF p] obtain img gray blurred t1 t2 t3 t4 where
    lg1: "lg1 = lg"
    and i1: "imread lib image_path = Inr (Some img)"
    and i2: "cvtColor lib img COLOR_BGR2GRAY = Inr gray"
    and i3: "GaussianBlur lib gray (5, 5) 0 = Inr blurred"
    and t: "threshold lib gray 150 255 [THRESH_BINARY] = Inr t1"
      "adaptiveThreshold lib gray 255 ADAPTIVE_THRESH_GAUSSIAN_C THRESH_BINARY 11 2 = Inr t2"
      "threshold lib gray 0 255 [THRESH_BINARY, THRESH_OTSU] = Inr t3"
      "threshold lib blurred 0 255 [THRESH_BINARY, THRESH_OTSU] = Inr t4"
    and imgs: "imgs = [(lit ''simple_threshold'', t1), (lit ''adaptive_threshold'', t2),
               (lit ''otsu_threshold'', t3), (lit ''gaussian_otsu'', t4)]"
    by blast
  have names: "map fst imgs = [lit ''simple_threshold'', lit ''adaptive_threshold'',
                       lit ''otsu_threshold'', lit ''gaussian_otsu'']"
    by (simp add: imgs)
  have transforms: "map (\<lambda>i. Inr (snd i)) imgs =
         [threshold lib gray 150 255 [THRESH_BINARY],
          adaptiveThreshold lib gray 255 ADAPTIVE_THRESH_GAUSSIAN_C THRESH_BINARY 11 2,
          threshold lib gray 0 255 [THRESH_BINARY, THRESH_OTSU],
          threshold lib blurred 0 255 [THRESH_BINARY, THRESH_OTSU]]"
    by (simp add: imgs t)
  from b p obtain res where o: "ocr_all lib imgs [] = Inr res"
    by (auto simp: extract_text_body_def split: sum.splits)
  from b p o obtain best where m: "py_max (length_key res) (map fst res) = Inr best"
    by (auto simp: extract_text_body_def split: sum.splits)
  from b p o m obtain br where g: "dict_get best res = Inr br"
    by (auto simp: extract_text_body_def split: sum.splits)
  from b p o m g have res: "best_text = result_text br" "best_method d = best"
    "all_methods d = res" "preprocessed d" "lg' = lg1"
    by (auto simp: extract_text_body_def)
  have dn: "distinct (map fst imgs)"
    unfolding names by (rule method_names_distinct)
  from ocr_all_Inr [OF o dn] obtain new where "res = [] @ new" and
    la: "list_all2 (\<lambda>i m. fst m = fst i
          \<and> (\<exists>pil. fromarray lib (snd i) = Inr pil
                \<and> image_to_string lib pil = Inr (result_text (snd m)))
          \<and> result_length (snd m) = length (py_strip (result_text (snd m)))) imgs new"
    by auto
  then have new: "new = res" by simp
  have "map fst res = map fst imgs"
    using la unfolding new
    by (induction imgs res rule: list_all2_induct) simp_all
  with dn have dr: "distinct (map fst res)" by simp
  from py_max_entries [OF dr m] obtain ys e zs where
    dec: "res = ys @ e # zs" "best = fst e"
    "\<forall>y \<in> set ys. result_length (snd y) < result_length (snd e)"
    "\<forall>z \<in> set zs. result_length (snd z) \<le> result_length (snd e)"
    by blast
  have "e \<in> set res" using dec(1) by simp
  then have "dict_get (fst e) res = Inr (snd e)"
    using dict_get_entry [OF dr, of "fst e" "snd e"] by simp
  with g dec(2) have br: "br = snd e" by simp
  have a: "all_methods d = ys @ (best_method d, snd e) # zs"
    using dec(1,2) res(2,3) by simp
  have bt: "best_text = result_text (snd e)" using res(1) br by simp
  have la': "list_all2 (\<lambda>i m. fst m = fst i
          \<and> (\<exists>pil. fromarray lib (snd i) = Inr pil
                \<and> image_to_string lib pil = Inr (result_text (snd m)))
          \<and> result_length (snd m) = length (py_strip (result_text (snd m))))
        imgs (all_methods d)"
    using la new res(3) by simp
  have l: "lg' = lg" using res(5) lg1 by simp
  show ?thesis
    by (intro exI conjI) (rule i1 i2 i3 names transforms la' a bt dec(3) dec(4) res(4) l)+
qed

lemmas imaging_eval_defs =
  extract_text_def extract_text_body_def preprocess_image_def preprocess_image_body_def
  log_and_reraise_def toy_imaging_def unreadable_imaging_def Let_def length_key_def
  dict_get_def py_strip_def is_space_def lit_def

theorem extract_text_best_witness:
  "extract_text toy_imaging (lit ''scan.png'') True [] =
     (Inr (lit ''abc'' @ [10],
       \<lparr>best_method = lit ''adaptive_threshold'',
        all_methods =
          [(lit ''simple_threshold'', \<lparr>result_text = lit ''ab'', result_length = 2\<rparr>),
           (lit ''adaptive_threshold'', \<lparr>result_text = lit ''abc'' @ [10], result_length = 3\<rparr>),
           (lit ''otsu_threshold'', \<lparr>result_text = lit ''xyz'', result_length = 3\<rparr>),
           (lit ''gaussian_otsu'', \<lparr>result_text = lit ''a'', result_length = 1\<rparr>)],
        preprocessed = True\<rparr>), [])
   \<and> (\<exists>before r after.
        [(lit ''simple_threshold'', \<lparr>result_text = lit ''ab'', result_length = 2\<rparr>),
         (lit ''adaptive_threshold'', \<lparr>result_text = lit ''abc'' @ [10], result_length = 3\<rparr>),
         (lit ''otsu_threshold'', \<lparr>result_text = lit ''xyz'', result_length = 3\<rparr>),
         (lit ''gaussian_otsu'', \<lparr>result_text = lit ''a'', result_length = 1\<rparr>)]
          = before @ (lit ''adaptive_threshold'', r) # after
      \<and> lit ''abc'' @ [10] = result_text r
      \<and> (\<forall>m \<in> set before. result_length (snd m) < result_length r)
      \<and> (\<forall>m \<in> set after. result_length (snd m) \<le> result_length r))"
proof -
  let ?d = "\<lparr>best_method = lit ''adaptive_threshold'',
        all_methods =
          [(lit ''simple_threshold'', \<lparr>result_text = lit ''ab'', result_length = 2\<rparr>),
           (lit ''adaptive_threshold'', \<lparr>result_text = lit ''abc'' @ [10], result_length = 3\<rparr>),
           (lit ''otsu_threshold'', \<lparr>result_text = lit ''xyz'', result_length = 3\<rparr>),
           (lit ''gaussian_otsu'', \<lparr>result_text = lit ''a'', result_length = 1\<rparr>)],
        preprocessed = True\<rparr>"
  have h: "extract_text toy_imaging (lit ''scan.png'') True [] = (Inr (lit ''abc'' @ [10], ?d), [])"
    by (simp add: imaging_eval_defs)
  from extract_text_best [OF h] obtain before r after where
    "all_methods ?d = before @ (best_method ?d, r) # after"
    "lit ''abc'' @ [10] = result_text r"
    "\<forall>m \<in> set before. result_length (snd m) < result_length r"
    "\<forall>m \<in> set after. result_length (snd m) \<le> result_length r"
    by blast
  then have "\<exists>before r after.
        all_methods ?d = before @ (best_method ?d, r) # after
      \<and> lit ''abc'' @ [10] = result_text r
      \<and> (\<forall>m \<in> set before. result_length (snd m) < result_length r)
      \<and> (\<forall>m \<in> set after. result_length (snd m) \<le> result_length r)"
    by blast
  with h show ?thesis by simp
qed

section \<open>Error handling\<close>








end
